theory Spec2Isabelle
  imports Main "HOL-Library.Word"
begin

section \<open>Data model\<close>

text \<open>
  Code points are \<^verbatim>\<open>uint32_t\<close>: 32-bit words, whose arithmetic wraps and whose
  order is the unsigned one. A \<^verbatim>\<open>std::set<uint32_t>\<close> is a set of such words (every
  such set is finite); iterating over it visits its elements in ascending order, which is
  \<open>sorted_list_of_set\<close>.
\<close>

type_synonym uint32 = "32 word"

text \<open>
  Modelled from the spec: the class \<^verbatim>\<open>CharacterRange\<close> (character_range.h) is not part
  of the source at hand. It is a closed range \<open>[min, max]\<close> of code points, and the
  one-argument constructor \<^verbatim>\<open>CharacterRange(c)\<close> builds the single-point range
  \<open>[c, c]\<close>. The fields are called \<^verbatim>\<open>min\<close> and \<^verbatim>\<open>max\<close> in the source.
\<close>

record CharacterRange =
  min_c :: uint32
  max_c :: uint32

definition CharacterRange_char :: "uint32 \<Rightarrow> CharacterRange" where
  "CharacterRange_char c = \<lparr>min_c = c, max_c = c\<rparr>"

record CharacterSet =
  includes_all :: bool
  included_chars :: "uint32 set"
  excluded_chars :: "uint32 set"

section \<open>Helpers on point sets\<close>

text \<open>
  \<^verbatim>\<open>for (uint32_t c = min; c <= max; c++) characters->insert(c);\<close>
  The counter is a 32-bit word, so \<open>c + 1\<close> wraps. The loop need not end, hence the
  result is optional: \<open>None\<close> stands for a loop that never returns.
\<close>

partial_function (option) add_range_loop :: "uint32 set \<Rightarrow> uint32 \<Rightarrow> uint32 \<Rightarrow> uint32 set option" where
  "add_range_loop characters c mx =
     (if c \<le> mx then add_range_loop (insert c characters) (c + 1) mx else Some characters)"

declare add_range_loop.simps [code]

definition add_range :: "uint32 set \<Rightarrow> uint32 \<Rightarrow> uint32 \<Rightarrow> uint32 set option" where
  "add_range characters mn mx = add_range_loop characters mn mx"

partial_function (option) remove_range_loop :: "uint32 set \<Rightarrow> uint32 \<Rightarrow> uint32 \<Rightarrow> uint32 set option" where
  "remove_range_loop characters c mx =
     (if c \<le> mx then remove_range_loop (characters - {c}) (c + 1) mx else Some characters)"

declare remove_range_loop.simps [code]

definition remove_range :: "uint32 set \<Rightarrow> uint32 \<Rightarrow> uint32 \<Rightarrow> uint32 set option" where
  "remove_range characters mn mx = remove_range_loop characters mn mx"

text \<open>
  \<open>remove_chars\<close> and \<open>add_chars\<close> change the set behind their first argument and
  return a fresh set: the model returns the pair (the changed \<open>left\<close>, the result).
\<close>

definition remove_chars :: "uint32 set \<Rightarrow> uint32 set \<Rightarrow> uint32 set \<times> uint32 set" where
  "remove_chars left right =
     fold (\<lambda>c (l, result). if c \<in> l then (l - {c}, insert c result) else (l, result))
       (sorted_list_of_set right) (left, {})"

definition add_chars :: "uint32 set \<Rightarrow> uint32 set \<Rightarrow> uint32 set \<times> uint32 set" where
  "add_chars left right =
     fold (\<lambda>c (l, result). if c \<notin> l then (insert c l, insert c result) else (l, result))
       (sorted_list_of_set right) (left, {})"

text \<open>
  One iteration of the loop of \<open>consolidate_ranges\<close>: \<open>result\<close> is the vector built so
  far, \<open>c\<close> the next point. \<open>c - 2\<close> and \<open>c - 1\<close> are word subtractions.
\<close>

definition consolidate_step :: "CharacterRange list \<Rightarrow> uint32 \<Rightarrow> CharacterRange list" where
  "consolidate_step result c =
     (let size = length result in
      if size \<ge> 2 \<and> max_c (result ! (size - 2)) = c - 2 then
        (let popped = butlast result
         in popped[length popped - 1 := (popped ! (length popped - 1))\<lparr>max_c := c\<rparr>])
      else if size \<ge> 1 then
        (let last = result ! (size - 1)
         in if min_c last < max_c last \<and> max_c last = c - 1
            then result[size - 1 := last\<lparr>max_c := c\<rparr>]
            else result @ [CharacterRange_char c])
      else result @ [CharacterRange_char c])"

definition consolidate_ranges :: "uint32 set \<Rightarrow> CharacterRange list" where
  "consolidate_ranges chars = foldl consolidate_step [] (sorted_list_of_set chars)"

section \<open>The class CharacterSet\<close>

definition CharacterSet_init :: CharacterSet where
  "CharacterSet_init = \<lparr>includes_all = False, included_chars = {}, excluded_chars = {}\<rparr>"

text \<open>
  \<^verbatim>\<open>operator<\<close> on two \<^verbatim>\<open>std::set\<close>s is the lexicographical comparison of their
  ascending element sequences.
\<close>

fun lexicographical_compare :: "uint32 list \<Rightarrow> uint32 list \<Rightarrow> bool" where
  "lexicographical_compare [] [] = False"
| "lexicographical_compare [] (y # ys) = True"
| "lexicographical_compare (x # xs) [] = False"
| "lexicographical_compare (x # xs) (y # ys) =
     (if x < y then True else if y < x then False else lexicographical_compare xs ys)"

definition set_less :: "uint32 set \<Rightarrow> uint32 set \<Rightarrow> bool" where
  "set_less A B = lexicographical_compare (sorted_list_of_set A) (sorted_list_of_set B)"

definition operator_less :: "CharacterSet \<Rightarrow> CharacterSet \<Rightarrow> bool" where
  "operator_less self other =
     (if \<not> includes_all self \<and> includes_all other then True
      else if includes_all self \<and> \<not> includes_all other then False
      else if set_less (included_chars self) (included_chars other) then True
      else if set_less (included_chars other) (included_chars self) then False
      else set_less (excluded_chars self) (excluded_chars other))"

definition include_all :: "CharacterSet \<Rightarrow> CharacterSet" where
  "include_all self = self\<lparr>includes_all := True, included_chars := {}, excluded_chars := {0}\<rparr>"

text \<open>
  \<^verbatim>\<open>include(min, max)\<close> and \<^verbatim>\<open>exclude(min, max)\<close> return when their loop does.
\<close>

definition include_range :: "CharacterSet \<Rightarrow> uint32 \<Rightarrow> uint32 \<Rightarrow> CharacterSet option" where
  "include_range self mn mx =
     (if includes_all self
      then map_option (\<lambda>e. self\<lparr>excluded_chars := e\<rparr>) (remove_range (excluded_chars self) mn mx)
      else map_option (\<lambda>i. self\<lparr>included_chars := i\<rparr>) (add_range (included_chars self) mn mx))"

definition exclude_range :: "CharacterSet \<Rightarrow> uint32 \<Rightarrow> uint32 \<Rightarrow> CharacterSet option" where
  "exclude_range self mn mx =
     (if includes_all self
      then map_option (\<lambda>e. self\<lparr>excluded_chars := e\<rparr>) (add_range (excluded_chars self) mn mx)
      else map_option (\<lambda>i. self\<lparr>included_chars := i\<rparr>) (remove_range (included_chars self) mn mx))"

definition include_char :: "CharacterSet \<Rightarrow> uint32 \<Rightarrow> CharacterSet option" where
  "include_char self c = include_range self c c"

definition exclude_char :: "CharacterSet \<Rightarrow> uint32 \<Rightarrow> CharacterSet option" where
  "exclude_char self c = exclude_range self c c"

definition is_empty :: "CharacterSet \<Rightarrow> bool" where
  "is_empty self = (\<not> includes_all self \<and> included_chars self = {})"

text \<open>
  \<open>add_set\<close> changes \<open>self\<close>; \<open>other\<close> is a different object, passed by constant
  reference.
\<close>

definition add_set :: "CharacterSet \<Rightarrow> CharacterSet \<Rightarrow> CharacterSet" where
  "add_set self other =
     (if includes_all self then
        (if includes_all other
         then self\<lparr>excluded_chars := snd (remove_chars (excluded_chars self) (excluded_chars other))\<rparr>
         else self\<lparr>excluded_chars := fst (remove_chars (excluded_chars self) (included_chars other))\<rparr>)
      else
        (if includes_all other
         then self\<lparr>includes_all := True,
                excluded_chars :=
                  fold (\<lambda>c ex. if c \<notin> included_chars self then insert c ex else ex)
                    (sorted_list_of_set (excluded_chars other)) (excluded_chars self),
                included_chars := {}\<rparr>
         else self\<lparr>included_chars :=
                  fold insert (sorted_list_of_set (included_chars other)) (included_chars self)\<rparr>))"

text \<open>
  \<open>remove_set\<close> changes \<open>self\<close> and returns a new set: the model returns the pair
  (the changed \<open>self\<close>, the returned set). Here \<open>other\<close> is a different object from
  \<open>self\<close> (it may hold an equal value); the call of a set on itself is
  \<open>remove_set_self_call\<close> below.
\<close>

definition remove_set :: "CharacterSet \<Rightarrow> CharacterSet \<Rightarrow> CharacterSet \<times> CharacterSet" where
  "remove_set self other =
     (let result = CharacterSet_init in
      if includes_all self then
        (if includes_all other then
           (let result = result\<lparr>includes_all := True, excluded_chars := excluded_chars self\<rparr>;
                (rex, added) = add_chars (excluded_chars result) (excluded_chars other)
            in (self\<lparr>included_chars := added, excluded_chars := {}, includes_all := False\<rparr>,
                result\<lparr>excluded_chars := rex\<rparr>))
         else
           (let (ex, added) = add_chars (excluded_chars self) (included_chars other)
            in (self\<lparr>excluded_chars := ex\<rparr>, result\<lparr>included_chars := added\<rparr>)))
      else
        (if includes_all other then
           (let result = result\<lparr>included_chars := included_chars self\<rparr>;
                (rin, removed) = remove_chars (included_chars result) (excluded_chars other)
            in (self\<lparr>included_chars := removed\<rparr>, result\<lparr>included_chars := rin\<rparr>))
         else
           (let (inc, removed) = remove_chars (included_chars self) (included_chars other)
            in (self\<lparr>included_chars := inc\<rparr>, result\<lparr>included_chars := removed\<rparr>))))"

text \<open>
  The call \<^verbatim>\<open>a.remove_set(a)\<close>: \<open>other\<close> is a reference to \<open>self\<close>, so both names stand
  for one object and \<open>other.includes_all\<close> is \<open>includes_all\<close>; only the two branches with
  equal forms can be taken.

  In complement form \<^verbatim>\<open>result.excluded_chars\<close> is a copy, and \<open>add_chars\<close> inserts into that
  copy while it iterates over \<^verbatim>\<open>other.excluded_chars\<close>, which nothing writes during the loop:
  the branch runs as it does for a separate argument.

  In direct form \<^verbatim>\<open>remove_chars(&included_chars, other.included_chars)\<close> gets one and the
  same set as \<open>left\<close> and as \<open>right\<close>. The loop
  \<^verbatim>\<open>for (uint32_t c : right) if (left->erase(c)) result.insert(c);\<close>
  keeps an iterator into \<open>right\<close>; with a first element \<open>c\<close> to visit,
  \<^verbatim>\<open>left->erase(c)\<close> erases the very element the iterator stands on, and the loop then
  advances that invalidated iterator: undefined behaviour, the call has no result. Only for
  an empty set, where the loop body never runs, does \<open>remove_chars\<close> return.
\<close>

datatype 'a outcome = Returns 'a | Undefined_behaviour

definition remove_chars_same :: "uint32 set \<Rightarrow> (uint32 set \<times> uint32 set) outcome" where
  "remove_chars_same chars =
     (case sorted_list_of_set chars of
        [] \<Rightarrow> Returns (chars, {})
      | c # cs \<Rightarrow> Undefined_behaviour)"

definition remove_set_self_call :: "CharacterSet \<Rightarrow> (CharacterSet \<times> CharacterSet) outcome" where
  "remove_set_self_call self =
     (let result = CharacterSet_init in
      if includes_all self then
        (let result = result\<lparr>includes_all := True, excluded_chars := excluded_chars self\<rparr>;
             (rex, added) = add_chars (excluded_chars result) (excluded_chars self)
         in Returns (self\<lparr>included_chars := added, excluded_chars := {}, includes_all := False\<rparr>,
                     result\<lparr>excluded_chars := rex\<rparr>))
      else
        (case remove_chars_same (included_chars self) of
           Undefined_behaviour \<Rightarrow> Undefined_behaviour
         | Returns (inc, removed) \<Rightarrow>
             Returns (self\<lparr>included_chars := inc\<rparr>, result\<lparr>included_chars := removed\<rparr>)))"

definition intersects :: "CharacterSet \<Rightarrow> CharacterSet \<Rightarrow> bool" where
  "intersects self other = (\<not> is_empty (snd (remove_set self other)))"

definition included_ranges :: "CharacterSet \<Rightarrow> CharacterRange list" where
  "included_ranges self = consolidate_ranges (included_chars self)"

definition excluded_ranges :: "CharacterSet \<Rightarrow> CharacterRange list" where
  "excluded_ranges self = consolidate_ranges (excluded_chars self)"

section \<open>Membership\<close>

text \<open>
  The set of code points a value stands for: in direct form exactly \<open>included_chars\<close>, in
  complement form everything but \<open>excluded_chars\<close>.
\<close>

definition contains :: "CharacterSet \<Rightarrow> uint32 \<Rightarrow> bool" where
  "contains self p = (if includes_all self then p \<notin> excluded_chars self else p \<in> included_chars self)"

section \<open>Values built by the public operations\<close>

text \<open>
  The values a program can hold: the default-constructed set, and what \<open>include_all\<close>,
  \<open>include\<close>, \<open>exclude\<close> (when they return), \<open>add_set\<close> and \<open>remove_set\<close> make
  of such values, the set \<open>remove_set\<close> returns included. The single-point overloads are
  the range ones with \<open>min = max\<close>.
\<close>

inductive reachable :: "CharacterSet \<Rightarrow> bool" where
  init: "reachable CharacterSet_init"
| include_all: "reachable s \<Longrightarrow> reachable (include_all s)"
| include_range: "reachable s \<Longrightarrow> include_range s mn mx = Some s' \<Longrightarrow> reachable s'"
| exclude_range: "reachable s \<Longrightarrow> exclude_range s mn mx = Some s' \<Longrightarrow> reachable s'"
| add_set: "reachable s \<Longrightarrow> reachable other \<Longrightarrow> reachable (add_set s other)"
| remove_set_self: "reachable s \<Longrightarrow> reachable other \<Longrightarrow> reachable (fst (remove_set s other))"
| remove_set_result: "reachable s \<Longrightarrow> reachable other \<Longrightarrow> reachable (snd (remove_set s other))"

text \<open>The field that \<open>includes_all\<close> does not select is empty.\<close>

definition one_field_live :: "CharacterSet \<Rightarrow> bool" where
  "one_field_live s = (if includes_all s then included_chars s = {} else excluded_chars s = {})"

text \<open>
  The values built from the default-constructed set by \<open>include\<close> and \<open>exclude\<close>
  alone (calls that return), and the round trip through the range view: every returned
  range is included again, in order, into a set.
\<close>

inductive built :: "CharacterSet \<Rightarrow> bool" where
  init: "built CharacterSet_init"
| include_range: "built s \<Longrightarrow> include_range s mn mx = Some s' \<Longrightarrow> built s'"
| exclude_range: "built s \<Longrightarrow> exclude_range s mn mx = Some s' \<Longrightarrow> built s'"

fun include_ranges :: "CharacterSet \<Rightarrow> CharacterRange list \<Rightarrow> CharacterSet option" where
  "include_ranges s [] = Some s"
| "include_ranges s (r # rs) =
     (case include_range s (min_c r) (max_c r) of
        None \<Rightarrow> None
      | Some s' \<Rightarrow> include_ranges s' rs)"

section \<open>What a range view has to satisfy\<close>

text \<open>
  A range is a single point, or it spans at least three points.
\<close>

definition single_or_wide :: "CharacterRange \<Rightarrow> bool" where
  "single_or_wide r = (min_c r = max_c r \<or> unat (min_c r) + 2 \<le> unat (max_c r))"

text \<open>
  Any three consecutive points \<open>x\<close>, \<open>x + 1\<close>, \<open>x + 2\<close> of \<open>S\<close> (with no wrap-around:
  \<open>x \<le> 4294967293\<close>) lie together in one range of \<open>rs\<close>.
\<close>

definition triples_together :: "uint32 set \<Rightarrow> CharacterRange list \<Rightarrow> bool" where
  "triples_together S rs =
     (\<forall>x\<in>S. x \<le> 4294967293 \<longrightarrow> x + 1 \<in> S \<longrightarrow> x + 2 \<in> S \<longrightarrow>
        (\<exists>r\<in>set rs. min_c r \<le> x \<and> x + 2 \<le> max_c r))"

text \<open>
  \<open>range_view rs S\<close>: the ranges of \<open>rs\<close> are closed (\<open>min \<le> max\<close>), ascending
  and pairwise disjoint (each ends below the start of every later one), and their union is
  \<open>S\<close>; every range is a single point or spans at least three points, so two consecutive
  points alone are never one range; any three consecutive points of \<open>S\<close> lie in one
  range, so a run of three or more points is one range; and two consecutive ranges touch
  (\<open>max + 1 = min\<close>) only when both are single points.
\<close>

definition range_view :: "CharacterRange list \<Rightarrow> uint32 set \<Rightarrow> bool" where
  "range_view rs S =
     ((\<forall>r\<in>set rs. min_c r \<le> max_c r) \<and>
      sorted_wrt (\<lambda>r s. max_c r < min_c s) rs \<and>
      (\<Union>r\<in>set rs. {min_c r..max_c r}) = S \<and>
      (\<forall>r\<in>set rs. single_or_wide r) \<and>
      triples_together S rs \<and>
      successively (\<lambda>r s. max_c r + 1 = min_c s \<longrightarrow> min_c r = max_c r \<and> min_c s = max_c s) rs)"

section \<open>The vector of consolidate_ranges as a stack\<close>

text \<open>
  For the proofs, the vector is read from its back: \<open>push_point\<close> is \<open>consolidate_step\<close>
  on the reversed vector, \<open>points\<close> is the union of the ranges, and \<open>stack_inv P st\<close>
  is what holds of the reversed vector \<open>st\<close> once the points \<open>P\<close> have been visited;
  \<open>adj_inv\<close> says that two touching ranges are single points not preceded by a third
  touching range.
\<close>

fun push_point :: "CharacterRange list \<Rightarrow> uint32 \<Rightarrow> CharacterRange list" where
  "push_point (l # p # rest) c =
     (if max_c p = c - 2 then p\<lparr>max_c := c\<rparr> # rest
      else if min_c l < max_c l \<and> max_c l = c - 1 then l\<lparr>max_c := c\<rparr> # p # rest
      else CharacterRange_char c # l # p # rest)"
| "push_point [l] c =
     (if min_c l < max_c l \<and> max_c l = c - 1 then [l\<lparr>max_c := c\<rparr>]
      else [CharacterRange_char c, l])"
| "push_point [] c = [CharacterRange_char c]"

definition points :: "CharacterRange list \<Rightarrow> uint32 set" where
  "points rs = (\<Union>r\<in>set rs. {min_c r..max_c r})"

fun adj_inv :: "CharacterRange list \<Rightarrow> bool" where
  "adj_inv (l # p # rest) =
     ((max_c p + 1 = min_c l \<longrightarrow>
         min_c p = max_c p \<and> min_c l = max_c l \<and>
         (case rest of [] \<Rightarrow> True | q # _ \<Rightarrow> max_c q + 1 \<noteq> min_c p)) \<and>
      adj_inv (p # rest))"
| "adj_inv [l] = True"
| "adj_inv [] = True"

definition stack_inv :: "uint32 set \<Rightarrow> CharacterRange list \<Rightarrow> bool" where
  "stack_inv P st =
     ((\<forall>r\<in>set st. min_c r \<le> max_c r) \<and>
      sorted_wrt (\<lambda>s r. max_c r < min_c s) st \<and>
      points st = P \<and> adj_inv st \<and>
      (\<forall>r\<in>set st. single_or_wide r) \<and> triples_together P st)"

section \<open>The range view over the natural numbers\<close>

text \<open>
  For the proof that a range view is unique, ranges are read as pairs of natural numbers
  (\<open>nat_range\<close>) and a point set as a predicate on them; \<open>nview\<close> is \<open>range_view\<close>
  in these terms, without the clause on touching ranges.
\<close>

definition nview :: "(nat \<times> nat) list \<Rightarrow> (nat \<Rightarrow> bool) \<Rightarrow> bool" where
  "nview ps C =
     ((\<forall>p\<in>set ps. fst p \<le> snd p) \<and>
      sorted_wrt (\<lambda>p q. snd p < fst q) ps \<and>
      (\<forall>n. C n = (\<exists>p\<in>set ps. fst p \<le> n \<and> n \<le> snd p)) \<and>
      (\<forall>p\<in>set ps. fst p = snd p \<or> fst p + 2 \<le> snd p) \<and>
      (\<forall>n. C n \<longrightarrow> C (n + 1) \<longrightarrow> C (n + 2) \<longrightarrow> (\<exists>p\<in>set ps. fst p \<le> n \<and> n + 2 \<le> snd p)))"

definition nat_range :: "CharacterRange \<Rightarrow> nat \<times> nat" where
  "nat_range r = (unat (min_c r), unat (max_c r))"

section \<open>The helpers in closed form\<close>

lemma fold_remove_chars:
  "fold (\<lambda>c (l, result). if c \<in> l then (l - {c}, insert c result) else (l, result)) xs (l, res)
   = (l - set xs, res \<union> (l \<inter> set xs))"
  by (induction xs arbitrary: l res) auto

lemma remove_chars_eq: "remove_chars left right = (left - right, left \<inter> right)"
  by (simp add: remove_chars_def fold_remove_chars)

lemma fold_add_chars:
  "fold (\<lambda>c (l, result). if c \<notin> l then (insert c l, insert c result) else (l, result)) xs (l, res)
   = (l \<union> set xs, res \<union> (set xs - l))"
  by (induction xs arbitrary: l res) auto

lemma add_chars_eq: "add_chars left right = (left \<union> right, right - left)"
  by (simp add: add_chars_def fold_add_chars)

lemma fold_insert_unless:
  "fold (\<lambda>c ex. if c \<notin> I then insert c ex else ex) xs ex = ex \<union> (set xs - I)"
  by (induction xs arbitrary: ex) auto

lemma fold_insert_all: "fold insert xs S = S \<union> set xs"
  by (induction xs arbitrary: S) auto

lemma add_set_eq:
  "add_set self other =
     (if includes_all self then
        (if includes_all other
         then self\<lparr>excluded_chars := excluded_chars self \<inter> excluded_chars other\<rparr>
         else self\<lparr>excluded_chars := excluded_chars self - included_chars other\<rparr>)
      else
        (if includes_all other
         then self\<lparr>includes_all := True,
                excluded_chars := excluded_chars self \<union> (excluded_chars other - included_chars self),
                included_chars := {}\<rparr>
         else self\<lparr>included_chars := included_chars self \<union> included_chars other\<rparr>))"
  by (simp add: add_set_def remove_chars_eq fold_insert_unless fold_insert_all)

lemma remove_set_eq:
  "remove_set self other =
     (if includes_all self then
        (if includes_all other then
           (\<lparr>includes_all = False, included_chars = excluded_chars other - excluded_chars self,
             excluded_chars = {}\<rparr>,
            \<lparr>includes_all = True, included_chars = {},
             excluded_chars = excluded_chars self \<union> excluded_chars other\<rparr>)
         else
           (self\<lparr>excluded_chars := excluded_chars self \<union> included_chars other\<rparr>,
            \<lparr>includes_all = False, included_chars = included_chars other - excluded_chars self,
             excluded_chars = {}\<rparr>))
      else
        (if includes_all other then
           (self\<lparr>included_chars := included_chars self \<inter> excluded_chars other\<rparr>,
            \<lparr>includes_all = False, included_chars = included_chars self - excluded_chars other,
             excluded_chars = {}\<rparr>)
         else
           (self\<lparr>included_chars := included_chars self - included_chars other\<rparr>,
            \<lparr>includes_all = False, included_chars = included_chars self \<inter> included_chars other,
             excluded_chars = {}\<rparr>)))"
  by (simp add: remove_set_def remove_chars_eq add_chars_eq CharacterSet_init_def)

section \<open>The representation invariant\<close>

lemma include_range_live:
  "include_range s mn mx = Some s' \<Longrightarrow> one_field_live s \<Longrightarrow> one_field_live s'"
  by (auto simp: include_range_def one_field_live_def split: if_splits)

lemma exclude_range_live:
  "exclude_range s mn mx = Some s' \<Longrightarrow> one_field_live s \<Longrightarrow> one_field_live s'"
  by (auto simp: exclude_range_def one_field_live_def split: if_splits)

lemma add_set_live: "one_field_live s \<Longrightarrow> one_field_live (add_set s other)"
  by (simp add: add_set_eq one_field_live_def)

lemma remove_set_live:
  "one_field_live s \<Longrightarrow> one_field_live (fst (remove_set s other))"
  "one_field_live (snd (remove_set s other))"
  by (simp_all add: remove_set_eq one_field_live_def)

lemma reachable_one_field_live: "reachable s \<Longrightarrow> one_field_live s"
proof (induction rule: reachable.induct)
  case init
  show ?case by (simp add: one_field_live_def CharacterSet_init_def)
next
  case (include_all s)
  show ?case by (simp add: one_field_live_def include_all_def)
next
  case (include_range s mn mx s')
  then show ?case by (blast intro: include_range_live)
next
  case (exclude_range s mn mx s')
  then show ?case by (blast intro: exclude_range_live)
next
  case (add_set s other)
  then show ?case by (simp add: add_set_live)
next
  case (remove_set_self s other)
  then show ?case by (simp add: remove_set_live)
next
  case (remove_set_result s other)
  show ?case by (simp add: remove_set_live)
qed

section \<open>include_all\<close>

text \<open>
  C8: after \<open>include_all\<close> the set is in complement form, its inclusion set is empty and
  its exclusion set is exactly \<open>{0}\<close>; so it contains every code point but 0.
\<close>

theorem include_all_excludes_only_zero:
  "includes_all (include_all s) = True \<and> included_chars (include_all s) = {} \<and>
   excluded_chars (include_all s) = {0} \<and> (\<forall>p. contains (include_all s) p = (p \<noteq> 0))"
  by (simp add: include_all_def contains_def)

section \<open>add_set\<close>




text \<open>
  The premise is needed only for a field state that no operation produces: a set in direct
  form whose \<open>excluded_chars\<close> is not empty. \<open>add_set\<close> with a set in complement form
  inserts into \<open>excluded_chars\<close> without clearing it first, so the points left there stay
  excluded.
\<close>

lemma add_set_leftover_excluded:
  "\<not> contains (add_set \<lparr>includes_all = False, included_chars = {}, excluded_chars = {5}\<rparr>
                       \<lparr>includes_all = True, included_chars = {}, excluded_chars = {}\<rparr>) 5 \<and>
   contains \<lparr>includes_all = True, included_chars = {}, excluded_chars = {}\<rparr> 5"
  by code_simp

section \<open>remove_set\<close>

text \<open>
  C2 (as amended): when \<open>self\<close> and \<open>other\<close> are both in complement form,
  \<open>remove_set(other)\<close> returns a set in complement form whose exclusion set is the union
  of the two exclusion sets and whose inclusion set is empty, so that its members are the
  points outside that union; \<open>self\<close> becomes a set in direct form whose members are those
  of \<open>self\<close> that are not members of \<open>other\<close>.
\<close>

theorem remove_set_both_complement:
  "includes_all self \<Longrightarrow> includes_all other \<Longrightarrow>
   includes_all (snd (remove_set self other)) \<and>
   included_chars (snd (remove_set self other)) = {} \<and>
   excluded_chars (snd (remove_set self other)) = excluded_chars self \<union> excluded_chars other \<and>
   (\<forall>p. contains (snd (remove_set self other)) p = (p \<notin> excluded_chars self \<union> excluded_chars other)) \<and>
   \<not> includes_all (fst (remove_set self other)) \<and>
   (\<forall>p. contains (fst (remove_set self other)) p = (contains self p \<and> \<not> contains other p))"
  by (auto simp: remove_set_eq contains_def)

text \<open>
  C2 as stated fails: with exclusion sets \<open>{0}\<close> and \<open>{0, 5}\<close> the returned set has
  an empty inclusion set, does not contain 5 and contains 7.
\<close>

theorem remove_set_both_complement_counterexample:
  "included_chars (snd (remove_set \<lparr>includes_all = True, included_chars = {}, excluded_chars = {0}\<rparr>
                                   \<lparr>includes_all = True, included_chars = {}, excluded_chars = {0, 5}\<rparr>))
     \<noteq> excluded_chars \<lparr>includes_all = True, included_chars = {}, excluded_chars = {0}\<rparr>
       \<union> excluded_chars \<lparr>includes_all = True, included_chars = {}, excluded_chars = {0, 5}\<rparr> \<and>
   \<not> contains (snd (remove_set \<lparr>includes_all = True, included_chars = {}, excluded_chars = {0}\<rparr>
                               \<lparr>includes_all = True, included_chars = {}, excluded_chars = {0, 5}\<rparr>)) 5 \<and>
   contains (snd (remove_set \<lparr>includes_all = True, included_chars = {}, excluded_chars = {0}\<rparr>
                             \<lparr>includes_all = True, included_chars = {}, excluded_chars = {0, 5}\<rparr>)) 7"
  by code_simp

theorem remove_set_both_complement_witness:
  "includes_all (include_all CharacterSet_init) \<and>
   includes_all \<lparr>includes_all = True, included_chars = {}, excluded_chars = {0, 5}\<rparr> \<and>
   excluded_chars (snd (remove_set (include_all CharacterSet_init)
      \<lparr>includes_all = True, included_chars = {}, excluded_chars = {0, 5}\<rparr>)) = {0, 5} \<and>
   contains (fst (remove_set (include_all CharacterSet_init)
      \<lparr>includes_all = True, included_chars = {}, excluded_chars = {0, 5}\<rparr>)) 5"
proof -
  let ?A = "include_all CharacterSet_init"
  let ?B = "\<lparr>includes_all = True, included_chars = {}, excluded_chars = {0, 5}\<rparr>"
  have a: "includes_all ?A" by (simp add: include_all_def)
  have b: "includes_all ?B" by simp
  have e: "excluded_chars ?A \<union> excluded_chars ?B = {0, 5}"
    by (auto simp: include_all_def)
  have c: "contains ?A 5 \<and> \<not> contains ?B 5"
    by (simp add: include_all_def contains_def)
  from remove_set_both_complement [OF a b] a b e c show ?thesis by simp
qed

text \<open>
  With a separate object of equal value as the argument, \<open>remove_set\<close> leaves the set
  empty and returns a set with exactly the members it had, in either form.
\<close>

lemma remove_set_equal_copy:
  "is_empty (fst (remove_set A A)) \<and> (\<forall>p. contains (snd (remove_set A A)) p = contains A p)"
  by (simp add: remove_set_eq is_empty_def contains_def)

lemma remove_chars_same_eq:
  "remove_chars_same chars = (if chars = {} then Returns ({}, {}) else Undefined_behaviour)"
  by (auto simp: remove_chars_same_def split: list.splits)

lemma remove_set_self_call_eq:
  "remove_set_self_call A =
     (if includes_all A \<or> included_chars A = {} then Returns (remove_set A A)
      else Undefined_behaviour)"
  by (auto simp: remove_set_self_call_def remove_chars_same_eq remove_set_eq add_chars_eq
      CharacterSet_init_def)

text \<open>
  C5 fails on the code for the call of a set on itself: \<^verbatim>\<open>a.remove_set(a)\<close> on the set
  \<open>{1}\<close> in direct form has undefined behaviour and no result, where the claim has \<open>a\<close>
  left empty and \<open>{1}\<close> returned. The same holds for every non-empty set in direct form;
  on a set in complement form and on the empty set the self-call does what the call with a
  separate equal value does.
\<close>

theorem remove_set_self_call_undefined:
  "remove_set_self_call \<lparr>includes_all = False, included_chars = {1}, excluded_chars = {}\<rparr>
     = Undefined_behaviour \<and>
   remove_set_self_call A =
     (if includes_all A \<or> included_chars A = {} then Returns (remove_set A A)
      else Undefined_behaviour)"
  by (simp add: remove_set_self_call_eq)

section \<open>Only the selected field is ever populated\<close>

text \<open>
  C7: every set built from the default constructor by \<open>include_all\<close>, \<open>include\<close>,
  \<open>exclude\<close>, \<open>add_set\<close> and \<open>remove_set\<close>, and every set \<open>remove_set\<close> returns, has
  \<open>excluded_chars\<close> empty when \<open>includes_all\<close> is false and \<open>included_chars\<close> empty
  when it is true.
\<close>

theorem reachable_dead_field_empty:
  "reachable s \<Longrightarrow>
   (\<not> includes_all s \<longrightarrow> excluded_chars s = {}) \<and> (includes_all s \<longrightarrow> included_chars s = {})"
  using reachable_one_field_live [of s] by (simp add: one_field_live_def)

theorem reachable_dead_field_empty_witness:
  "reachable (snd (remove_set (include_all CharacterSet_init) (include_all CharacterSet_init))) \<and>
   includes_all (snd (remove_set (include_all CharacterSet_init) (include_all CharacterSet_init))) \<and>
   included_chars (snd (remove_set (include_all CharacterSet_init) (include_all CharacterSet_init))) = {}"
proof -
  have r: "reachable (include_all CharacterSet_init)"
    by (rule reachable.include_all [OF reachable.init])
  have r': "reachable (snd (remove_set (include_all CharacterSet_init) (include_all CharacterSet_init)))"
    by (rule reachable.remove_set_result [OF r r])
  have "includes_all (snd (remove_set (include_all CharacterSet_init) (include_all CharacterSet_init)))"
    by (simp add: remove_set_eq include_all_def)
  with r' reachable_dead_field_empty [OF r'] show ?thesis by simp
qed

section \<open>The loops of add_range and remove_range\<close>

text \<open>
  Both loops return exactly when \<open>max\<close> is below the largest 32-bit value; with
  \<open>max = 4294967295\<close> the test \<open>c <= max\<close> is always true and the counter wraps.
\<close>

lemma word_succ_unat: "(c::uint32) \<le> mx \<Longrightarrow> mx \<noteq> 4294967295 \<Longrightarrow> unat (c + 1) = unat c + 1"
  by unat_arith simp

lemma word_atLeastAtMost_rec:
  "(c::uint32) \<le> mx \<Longrightarrow> mx \<noteq> 4294967295 \<Longrightarrow> {c..mx} = insert c {c + 1..mx}"
  apply (rule set_eqI)
  apply simp
  apply unat_arith
  apply simp
  apply arith
  done

lemma word_le_max: "(c::uint32) \<le> 4294967295"
proof -
  have m: "(- 1 :: uint32) = 4294967295" by simp
  have "c \<le> - 1" by (rule word_order.extremum)
  then show ?thesis unfolding m .
qed

lemma add_range_loop_Some_not_max:
  assumes "add_range_loop S c mx = Some y"
  shows "mx \<noteq> 4294967295"
proof (rule add_range_loop.raw_induct [where P = "\<lambda>_ _ m _. m \<noteq> 4294967295", OF _ assms])
  fix f :: "uint32 set \<Rightarrow> uint32 \<Rightarrow> uint32 \<Rightarrow> uint32 set option" and S' c' m' y'
  assume IH: "\<And>S c m y. f S c m = Some y \<Longrightarrow> m \<noteq> 4294967295"
    and eq: "(if c' \<le> m' then f (insert c' S') (c' + 1) m' else Some S') = Some y'"
  show "m' \<noteq> 4294967295"
  proof (cases "c' \<le> m'")
    case True
    with eq IH show ?thesis by simp
  next
    case False
    with word_le_max [of c'] show ?thesis by auto
  qed
qed

lemma remove_range_loop_Some_not_max:
  assumes "remove_range_loop S c mx = Some y"
  shows "mx \<noteq> 4294967295"
proof (rule remove_range_loop.raw_induct [where P = "\<lambda>_ _ m _. m \<noteq> 4294967295", OF _ assms])
  fix f :: "uint32 set \<Rightarrow> uint32 \<Rightarrow> uint32 \<Rightarrow> uint32 set option" and S' c' m' y'
  assume IH: "\<And>S c m y. f S c m = Some y \<Longrightarrow> m \<noteq> 4294967295"
    and eq: "(if c' \<le> m' then f (S' - {c'}) (c' + 1) m' else Some S') = Some y'"
  show "m' \<noteq> 4294967295"
  proof (cases "c' \<le> m'")
    case True
    with eq IH show ?thesis by simp
  next
    case False
    with word_le_max [of c'] show ?thesis by auto
  qed
qed

lemma add_range_loop_returns:
  "mx \<noteq> 4294967295 \<Longrightarrow> add_range_loop S c mx = Some (S \<union> {c..mx})"
proof (induction "unat mx + 1 - unat c" arbitrary: S c)
  case 0
  then have "\<not> c \<le> mx" by (simp add: word_le_nat_alt)
  then show ?case by (subst add_range_loop.simps) simp
next
  case (Suc n)
  then have le: "c \<le> mx" by (simp add: word_le_nat_alt)
  have u: "unat (c + 1) = unat c + 1"
    using le Suc.prems by (rule word_succ_unat)
  have "n = unat mx + 1 - unat (c + 1)" using Suc.hyps(2) u by simp
  from Suc.hyps(1) [OF this Suc.prems]
  have "add_range_loop (insert c S) (c + 1) mx = Some (insert c S \<union> {c + 1..mx})" .
  moreover have "insert c S \<union> {c + 1..mx} = S \<union> {c..mx}"
    unfolding word_atLeastAtMost_rec [OF le Suc.prems] by blast
  ultimately show ?case using le by (subst add_range_loop.simps) simp
qed

lemma remove_range_loop_returns:
  "mx \<noteq> 4294967295 \<Longrightarrow> remove_range_loop S c mx = Some (S - {c..mx})"
proof (induction "unat mx + 1 - unat c" arbitrary: S c)
  case 0
  then have "\<not> c \<le> mx" by (simp add: word_le_nat_alt)
  then show ?case by (subst remove_range_loop.simps) simp
next
  case (Suc n)
  then have le: "c \<le> mx" by (simp add: word_le_nat_alt)
  have u: "unat (c + 1) = unat c + 1"
    using le Suc.prems by (rule word_succ_unat)
  have "n = unat mx + 1 - unat (c + 1)" using Suc.hyps(2) u by simp
  from Suc.hyps(1) [OF this Suc.prems]
  have "remove_range_loop (S - {c}) (c + 1) mx = Some (S - {c} - {c + 1..mx})" .
  moreover have "S - {c} - {c + 1..mx} = S - {c..mx}"
    unfolding word_atLeastAtMost_rec [OF le Suc.prems] by blast
  ultimately show ?case using le by (subst remove_range_loop.simps) simp
qed

lemma add_range_iff:
  "add_range S mn mx = Some T \<longleftrightarrow> mx \<noteq> 4294967295 \<and> T = S \<union> {mn..mx}"
  unfolding add_range_def
  using add_range_loop_Some_not_max [of S mn mx T] add_range_loop_returns [of mx S mn]
  by auto

lemma remove_range_iff:
  "remove_range S mn mx = Some T \<longleftrightarrow> mx \<noteq> 4294967295 \<and> T = S - {mn..mx}"
  unfolding remove_range_def
  using remove_range_loop_Some_not_max [of S mn mx T] remove_range_loop_returns [of mx S mn]
  by auto

lemma add_range_max: "add_range S mn 4294967295 = None"
proof (cases "add_range S mn 4294967295")
  case None
  then show ?thesis .
next
  case (Some T)
  then show ?thesis by (simp add: add_range_iff)
qed

lemma remove_range_max: "remove_range S mn 4294967295 = None"
proof (cases "remove_range S mn 4294967295")
  case None
  then show ?thesis .
next
  case (Some T)
  then show ?thesis by (simp add: remove_range_iff)
qed

lemma add_range_eq:
  "add_range S mn mx = (if mx = 4294967295 then None else Some (S \<union> {mn..mx}))"
  by (simp add: add_range_max add_range_iff)

lemma remove_range_eq:
  "remove_range S mn mx = (if mx = 4294967295 then None else Some (S - {mn..mx}))"
  by (simp add: remove_range_max remove_range_iff)

text \<open>
  C6 fails on the code: \<open>include(4294967295, 4294967295)\<close> and
  \<open>exclude(4294967295, 4294967295)\<close> on a default-constructed set never return,
  although \<open>min \<le> max\<close>; nor does any call of \<open>include\<close> or \<open>exclude\<close> whose
  \<open>max\<close> is 4294967295, on any set and for any \<open>min\<close>.
\<close>

theorem include_exclude_max_never_return:
  "include_range CharacterSet_init 4294967295 4294967295 = None \<and>
   exclude_range CharacterSet_init 4294967295 4294967295 = None \<and>
   include_range s mn 4294967295 = None \<and>
   exclude_range s mn 4294967295 = None"
  by (simp add: include_range_def exclude_range_def add_range_max remove_range_max)

text \<open>Below that bound every call returns.\<close>

lemma include_exclude_return_below_max:
  "mx \<noteq> 4294967295 \<Longrightarrow>
   (\<exists>s'. include_range s mn mx = Some s') \<and> (\<exists>s'. exclude_range s mn mx = Some s')"
  by (simp add: include_range_def exclude_range_def add_range_eq remove_range_eq)

section \<open>operator<\<close>

lemma lex_irrefl: "\<not> lexicographical_compare xs xs"
  by (induction xs) auto

lemma lex_trans:
  "lexicographical_compare xs ys \<Longrightarrow> lexicographical_compare ys zs \<Longrightarrow> lexicographical_compare xs zs"
proof (induction xs ys arbitrary: zs rule: lexicographical_compare.induct)
  case 1
  then show ?case by simp
next
  case (2 y ys)
  then show ?case by (cases zs) (auto split: if_splits)
next
  case (3 x xs)
  then show ?case by simp
next
  case (4 x xs y ys)
  then show ?case by (cases zs) (auto split: if_splits)
qed

lemma lex_total:
  "xs \<noteq> ys \<Longrightarrow> lexicographical_compare xs ys \<or> lexicographical_compare ys xs"
  by (induction xs ys rule: lexicographical_compare.induct) auto

lemma lex_asym: "lexicographical_compare xs ys \<Longrightarrow> \<not> lexicographical_compare ys xs"
  using lex_trans [of xs ys xs] lex_irrefl [of xs] by blast

lemma set_less_irrefl: "\<not> set_less A A"
  by (simp add: set_less_def lex_irrefl)

lemma set_less_trans: "set_less A B \<Longrightarrow> set_less B C \<Longrightarrow> set_less A C"
  unfolding set_less_def by (rule lex_trans)

lemma set_less_asym: "set_less A B \<Longrightarrow> \<not> set_less B A"
  unfolding set_less_def by (rule lex_asym)

lemma set_less_total: "A \<noteq> B \<Longrightarrow> set_less A B \<or> set_less B A"
proof -
  assume "A \<noteq> B"
  then have "sorted_list_of_set A \<noteq> sorted_list_of_set B"
    using sorted_list_of_set_inject [of A B] by auto
  then show ?thesis unfolding set_less_def by (rule lex_total)
qed

lemma operator_less_iff:
  "operator_less a b =
     ((\<not> includes_all a \<and> includes_all b) \<or>
      (includes_all a = includes_all b \<and>
       (set_less (included_chars a) (included_chars b) \<or>
        (included_chars a = included_chars b \<and>
         set_less (excluded_chars a) (excluded_chars b)))))"
  using set_less_total [of "included_chars a" "included_chars b"]
    set_less_irrefl [of "included_chars a"]
    set_less_asym [of "included_chars a" "included_chars b"]
  by (auto simp: operator_less_def)

lemma operator_less_irrefl: "\<not> operator_less a a"
  by (simp add: operator_less_iff set_less_irrefl)

lemma operator_less_trans:
  "operator_less a b \<Longrightarrow> operator_less b c \<Longrightarrow> operator_less a c"
  unfolding operator_less_iff
  by (elim disjE conjE) (auto intro: set_less_trans)

lemma operator_less_total: "a \<noteq> b \<Longrightarrow> operator_less a b \<or> operator_less b a"
proof -
  assume "a \<noteq> b"
  then have "includes_all a \<noteq> includes_all b \<or> included_chars a \<noteq> included_chars b
      \<or> excluded_chars a \<noteq> excluded_chars b"
    by (cases a, cases b) auto
  then show ?thesis
    unfolding operator_less_iff
    using set_less_total [of "included_chars a" "included_chars b"]
      set_less_total [of "excluded_chars a" "excluded_chars b"]
    by auto
qed

lemma operator_less_asym: "operator_less a b \<Longrightarrow> \<not> operator_less b a"
  using operator_less_trans [of a b a] operator_less_irrefl [of a] by blast

text \<open>
  C10: \<open>operator<\<close> is a strict total order on all field states: irreflexive,
  transitive, and of two different values exactly one is less than the other; it orders by
  \<open>includes_all\<close> first (false before true), then by \<open>included_chars\<close>, then by
  \<open>excluded_chars\<close>, the sets compared lexicographically.
\<close>

theorem operator_less_strict_total_order:
  "\<not> operator_less a a \<and>
   (operator_less a b \<longrightarrow> operator_less b c \<longrightarrow> operator_less a c) \<and>
   (a \<noteq> b \<longrightarrow> (operator_less a b \<noteq> operator_less b a)) \<and>
   (operator_less a b =
      ((\<not> includes_all a \<and> includes_all b) \<or>
       (includes_all a = includes_all b \<and>
        (set_less (included_chars a) (included_chars b) \<or>
         (included_chars a = included_chars b \<and>
          set_less (excluded_chars a) (excluded_chars b))))))"
  using operator_less_irrefl [of a] operator_less_trans [of a b c]
    operator_less_total [of a b] operator_less_asym [of a b] operator_less_iff [of a b]
  by blast

theorem operator_less_strict_total_order_witness:
  "operator_less \<lparr>includes_all = False, included_chars = {1, 2}, excluded_chars = {}\<rparr>
                 \<lparr>includes_all = False, included_chars = {1, 3}, excluded_chars = {}\<rparr> \<and>
   operator_less \<lparr>includes_all = False, included_chars = {1, 3}, excluded_chars = {}\<rparr>
                 \<lparr>includes_all = True, included_chars = {}, excluded_chars = {0}\<rparr> \<and>
   operator_less \<lparr>includes_all = False, included_chars = {1, 2}, excluded_chars = {}\<rparr>
                 \<lparr>includes_all = True, included_chars = {}, excluded_chars = {0}\<rparr> \<and>
   \<lparr>includes_all = False, included_chars = {1, 2}, excluded_chars = {}\<rparr>
     \<noteq> \<lparr>includes_all = False, included_chars = {1, 3}, excluded_chars = {}\<rparr> \<and>
   \<not> operator_less \<lparr>includes_all = False, included_chars = {1, 3}, excluded_chars = {}\<rparr>
                   \<lparr>includes_all = False, included_chars = {1, 2}, excluded_chars = {}\<rparr>"
proof -
  let ?a = "\<lparr>includes_all = False, included_chars = {1, 2}, excluded_chars = {}\<rparr>"
  let ?b = "\<lparr>includes_all = False, included_chars = {1, 3}, excluded_chars = {}\<rparr>"
  let ?c = "\<lparr>includes_all = True, included_chars = {}, excluded_chars = {0}\<rparr>"
  have ab: "operator_less ?a ?b" by code_simp
  have bc: "operator_less ?b ?c" by code_simp
  have ne: "?a \<noteq> ?b" by code_simp
  from operator_less_strict_total_order [of ?a ?b ?c] ab bc ne show ?thesis by blast
qed

section \<open>consolidate_ranges\<close>

lemma rev_consolidate_step: "rev (consolidate_step result c) = push_point (rev result) c"
proof (cases result rule: rev_cases)
  case Nil
  then show ?thesis by (simp add: consolidate_step_def)
next
  case (snoc pre l)
  note outer = snoc
  show ?thesis
  proof (cases pre rule: rev_cases)
    case Nil
    with outer show ?thesis by (auto simp: consolidate_step_def Let_def)
  next
    case (snoc pre' p)
    with outer have r: "result = pre' @ [p, l]" by simp
    have n1: "result ! (length result - 2) = p" by (simp add: r nth_append)
    have n2: "result ! (length result - 1) = l" by (simp add: r nth_append)
    have b: "butlast result = pre' @ [p]" by (simp add: r butlast_append)
    have u1: "(pre' @ [p])[length (pre' @ [p]) - 1 := x] = pre' @ [x]" for x by simp
    have n3: "(pre' @ [p]) ! (length (pre' @ [p]) - 1) = p" by simp
    have u2: "result[length result - 1 := x] = pre' @ [p, x]" for x
      by (simp add: r list_update_append)
    have len: "length result \<ge> 2" "length result \<ge> 1" by (simp_all add: r)
    show ?thesis
      unfolding consolidate_step_def Let_def n1 n2 b u1 n3 u2
      using len by (auto simp: r)
  qed
qed

lemma rev_foldl_consolidate_step:
  "rev (foldl consolidate_step result cs) = foldl push_point (rev result) cs"
  by (induction cs arbitrary: result) (simp_all add: rev_consolidate_step)

lemma points_simps [simp]:
  "points [] = {}"
  "points (r # rs) = {min_c r..max_c r} \<union> points rs"
  by (auto simp: points_def)

lemma word_extend_one:
  "(a::uint32) \<le> m \<Longrightarrow> m < c \<Longrightarrow> m = c - 1 \<Longrightarrow> {a..c} = insert c {a..m}"
  apply (rule set_eqI)
  apply simp
  apply unat_arith
  done

lemma word_between:
  "(m::uint32) < a \<Longrightarrow> a \<le> b \<Longrightarrow> b < c \<Longrightarrow> m = c - 2 \<Longrightarrow> a = c - 1 \<and> b = c - 1"
  apply unat_arith
  done

lemma word_two_below:
  "(m::uint32) < c \<Longrightarrow> m = c - 2 \<Longrightarrow> m < c - 1 \<and> c - 1 < c"
  by unat_arith

lemma word_extend_two:
  assumes "(a::uint32) \<le> m" "m < c" "m = c - 2"
  shows "{a..c} = insert c (insert (c - 1) {a..m})"
proof -
  from word_two_below [OF assms(2,3)] have b: "m < c - 1" "c - 1 < c" by simp_all
  have m: "m = c - 1 - 1" using assms(3) by simp
  have "a \<le> c - 1" using assms(1) b(1) by simp
  then have "{a..c} = insert c {a..c - 1}" using b(2) by (rule word_extend_one) simp
  also have "{a..c - 1} = insert (c - 1) {a..m}" using assms(1) b(1) m by (rule word_extend_one)
  finally show ?thesis .
qed

lemma points_member:
  "r \<in> set rs \<Longrightarrow> min_c r \<le> max_c r \<Longrightarrow> min_c r \<in> points rs \<and> max_c r \<in> points rs"
  unfolding points_def by (intro conjI UN_I [of r]) simp_all

lemma push_point_closed:
  assumes "\<forall>r\<in>set st. min_c r \<le> max_c r" "\<forall>r\<in>set st. min_c r < c"
  shows "\<forall>r\<in>set (push_point st c). min_c r \<le> max_c r"
proof (cases "(st, c)" rule: push_point.cases)
  case (1 l p rest c')
  then have st: "st = l # p # rest" and [simp]: "c' = c" by simp_all
  have "min_c l < c" "min_c p < c" using assms(2) by (simp_all add: st)
  then have "min_c l \<le> c" "min_c p \<le> c" by simp_all
  then show ?thesis using assms(1) by (simp add: st CharacterRange_char_def)
next
  case (2 l c')
  then have st: "st = [l]" and [simp]: "c' = c" by simp_all
  have "min_c l < c" using assms(2) by (simp add: st)
  then have "min_c l \<le> c" by (rule less_imp_le)
  then show ?thesis using assms(1) by (simp add: st CharacterRange_char_def)
next
  case (3 c')
  then show ?thesis by (simp add: CharacterRange_char_def)
qed

lemma push_point_sorted:
  assumes "sorted_wrt (\<lambda>s r. max_c r < min_c s) st" "\<forall>r\<in>set st. max_c r < c"
  shows "sorted_wrt (\<lambda>s r. max_c r < min_c s) (push_point st c)"
proof (cases "(st, c)" rule: push_point.cases)
  case (1 l p rest c')
  then have st: "st = l # p # rest" and [simp]: "c' = c" by simp_all
  show ?thesis using assms by (simp add: st CharacterRange_char_def)
next
  case (2 l c')
  then have st: "st = [l]" and [simp]: "c' = c" by simp_all
  show ?thesis using assms by (simp add: st CharacterRange_char_def)
next
  case (3 c')
  then show ?thesis by (simp add: CharacterRange_char_def)
qed

lemma merge_sets: "insert c (insert d A) \<union> R = insert c ({d} \<union> (A \<union> R))"
  by blast

lemma push_point_points:
  assumes "\<forall>r\<in>set st. min_c r \<le> max_c r" "\<forall>r\<in>set st. max_c r < c"
    "sorted_wrt (\<lambda>s r. max_c r < min_c s) st"
  shows "points (push_point st c) = insert c (points st)"
proof (cases "(st, c)" rule: push_point.cases)
  case (1 l p rest c')
  then have st: "st = l # p # rest" and c': "c' = c" by simp_all
  have lp: "min_c l \<le> max_c l" "min_c p \<le> max_c p" "max_c l < c" "max_c p < c"
    "max_c p < min_c l"
    using assms by (simp_all add: st)
  have pst: "points st = {min_c l..max_c l} \<union> ({min_c p..max_c p} \<union> points rest)"
    by (simp add: st)
  show ?thesis
  proof (cases "max_c p = c - 2")
    case True
    from word_between [OF lp(5) lp(1) lp(3) True]
    have l: "min_c l = c - 1" "max_c l = c - 1" by simp_all
    have e: "{min_c p..c} = insert c (insert (c - 1) {min_c p..max_c p})"
      using lp(2) lp(4) True by (rule word_extend_two)
    have pp: "push_point st c = p\<lparr>max_c := c\<rparr> # rest"
      using True by (simp add: st)
    have "points (push_point st c) = {min_c p..c} \<union> points rest"
      by (simp add: pp)
    also have "\<dots> = insert c ({c - 1} \<union> ({min_c p..max_c p} \<union> points rest))"
      unfolding e by (rule merge_sets)
    also have "\<dots> = insert c (points st)"
      unfolding pst l by simp
    finally show ?thesis .
  next
    case False
    note nomerge = False
    show ?thesis
    proof (cases "min_c l < max_c l \<and> max_c l = c - 1")
      case True
      then have e: "{min_c l..c} = insert c {min_c l..max_c l}"
        using lp(1) lp(3) by (intro word_extend_one) simp_all
      have pp: "push_point st c = l\<lparr>max_c := c\<rparr> # p # rest"
        using True nomerge by (auto simp: st)
      have "points (push_point st c) = {min_c l..c} \<union> ({min_c p..max_c p} \<union> points rest)"
        by (simp add: pp)
      also have "\<dots> = insert c (points st)"
        unfolding e pst by simp
      finally show ?thesis .
    next
      case False
      then have pp: "push_point st c = CharacterRange_char c # st"
        using nomerge by (simp add: st)
      show ?thesis by (simp add: pp CharacterRange_char_def)
    qed
  qed
next
  case (2 l c')
  then have st: "st = [l]" and c': "c' = c" by simp_all
  have lp: "min_c l \<le> max_c l" "max_c l < c" using assms by (simp_all add: st)
  show ?thesis
  proof (cases "min_c l < max_c l \<and> max_c l = c - 1")
    case True
    then have e: "{min_c l..c} = insert c {min_c l..max_c l}"
      using lp by (intro word_extend_one) simp_all
    have pp: "push_point st c = [l\<lparr>max_c := c\<rparr>]"
      using True by (auto simp: st)
    have "points (push_point st c) = {min_c l..c}" by (simp add: pp)
    also have "\<dots> = insert c (points st)" unfolding e by (simp add: st)
    finally show ?thesis .
  next
    case False
    then have pp: "push_point st c = CharacterRange_char c # st"
      by (simp add: st)
    show ?thesis by (simp add: pp CharacterRange_char_def)
  qed
next
  case (3 c')
  then show ?thesis by (simp add: CharacterRange_char_def)
qed

lemma word_succ_eq: "((x::uint32) + 1 = c) = (x = c - 1)"
  by auto

lemma word_succ_eq2: "((x::uint32) + 1 = c - 1) = (x = c - 2)"
  by auto

lemma single_unless_extended:
  assumes "\<not> (min_c l < max_c l \<and> max_c l = c - 1)" "min_c l \<le> max_c l" "max_c l + 1 = c"
  shows "min_c l = max_c l"
proof -
  from assms(3) have "max_c l = c - 1" by (simp only: word_succ_eq)
  with assms(1) have "\<not> min_c l < max_c l" by blast
  then have "max_c l \<le> min_c l" by (simp only: not_less)
  with assms(2) show ?thesis by (rule order.antisym)
qed

lemma push_point_adj:
  assumes "adj_inv st" "\<forall>r\<in>set st. min_c r \<le> max_c r" "\<forall>r\<in>set st. max_c r < c"
    "sorted_wrt (\<lambda>s r. max_c r < min_c s) st"
  shows "adj_inv (push_point st c)"
proof (cases "(st, c)" rule: push_point.cases)
  case (1 l p rest c')
  then have st: "st = l # p # rest" and c': "c' = c" by simp_all
  have lp: "min_c l \<le> max_c l" "min_c p \<le> max_c p" "max_c l < c" "max_c p < c"
    "max_c p < min_c l"
    using assms(2-4) by (simp_all add: st)
  have old: "max_c p + 1 = min_c l \<longrightarrow>
         min_c p = max_c p \<and> min_c l = max_c l \<and>
         (case rest of [] \<Rightarrow> True | q # _ \<Rightarrow> max_c q + 1 \<noteq> min_c p)"
    and old': "adj_inv (p # rest)"
    using assms(1) by (simp_all add: st)
  show ?thesis
  proof (cases "max_c p = c - 2")
    case True
    from word_between [OF lp(5) lp(1) lp(3) True]
    have l: "min_c l = c - 1" "max_c l = c - 1" by simp_all
    have "max_c p + 1 = min_c l" unfolding l word_succ_eq2 by (rule True)
    with old have gap: "case rest of [] \<Rightarrow> True | q # _ \<Rightarrow> max_c q + 1 \<noteq> min_c p"
      by simp
    have pp: "push_point st c = p\<lparr>max_c := c\<rparr> # rest"
      using True by (simp add: st)
    show ?thesis
    proof (cases rest)
      case Nil
      then show ?thesis by (simp add: pp)
    next
      case (Cons q rest')
      with gap old' show ?thesis by (simp add: pp)
    qed
  next
    case False
    note nomerge = False
    show ?thesis
    proof (cases "min_c l < max_c l \<and> max_c l = c - 1")
      case True
      have pp: "push_point st c = l\<lparr>max_c := c\<rparr> # p # rest"
        using True nomerge by (auto simp: st)
      from True have "min_c l < max_c l" by (rule conjunct1)
      then have "min_c l \<noteq> max_c l" by (rule less_imp_neq)
      with old have "max_c p + 1 \<noteq> min_c l" by blast
      with old' show ?thesis by (simp add: pp)
    next
      case False
      then have pp: "push_point st c = CharacterRange_char c # l # p # rest"
        using nomerge by (simp add: st)
      have new: "min_c l = max_c l \<and> max_c p + 1 \<noteq> min_c l" if "max_c l + 1 = c"
      proof -
        from that have m: "max_c l = c - 1" by (simp only: word_succ_eq)
        from False lp(1) that have s: "min_c l = max_c l" by (rule single_unless_extended)
        have "max_c p + 1 \<noteq> min_c l"
          unfolding s m word_succ_eq2 by (rule nomerge)
        with s show ?thesis by blast
      qed
      have "adj_inv (CharacterRange_char c # l # p # rest) =
          ((max_c l + 1 = c \<longrightarrow> min_c l = max_c l \<and> max_c p + 1 \<noteq> min_c l) \<and>
           adj_inv (l # p # rest))"
        by (simp add: CharacterRange_char_def)
      with new assms(1) show ?thesis unfolding pp unfolding st by blast
    qed
  qed
next
  case (2 l c')
  then have st: "st = [l]" and c': "c' = c" by simp_all
  have lp: "min_c l \<le> max_c l" using assms(2) by (simp add: st)
  show ?thesis
  proof (cases "min_c l < max_c l \<and> max_c l = c - 1")
    case True
    then have pp: "push_point st c = [l\<lparr>max_c := c\<rparr>]" by (auto simp: st)
    show ?thesis by (simp add: pp)
  next
    case False
    then have pp: "push_point st c = [CharacterRange_char c, l]" by (simp add: st)
    have new: "min_c l = max_c l" if "max_c l + 1 = c"
      using False lp that by (rule single_unless_extended)
    have "adj_inv [CharacterRange_char c, l] = (max_c l + 1 = c \<longrightarrow> min_c l = max_c l)"
      by (simp add: CharacterRange_char_def)
    with new show ?thesis unfolding pp by blast
  qed
next
  case (3 c')
  then show ?thesis by simp
qed


lemma unat_bound: "(x::uint32) \<le> 4294967293 \<Longrightarrow> unat x \<le> 4294967293"
  by (simp add: word_le_nat_alt)

lemma unat_succ1: "(x::uint32) \<le> 4294967293 \<Longrightarrow> unat (x + 1) = unat x + 1"
  using unat_add_lem [of x 1] unat_bound [of x] by simp

lemma unat_succ2: "(x::uint32) \<le> 4294967293 \<Longrightarrow> unat (x + 2) = unat x + 2"
  using unat_add_lem [of x 2] unat_bound [of x] by simp

lemma succ_less1: "(x::uint32) \<le> 4294967293 \<Longrightarrow> x < x + 1"
  by (simp add: word_less_nat_alt unat_succ1)

lemma succ_less2: "(x::uint32) \<le> 4294967293 \<Longrightarrow> x + 1 < x + 2"
  by (simp add: word_less_nat_alt unat_succ1 unat_succ2)

lemma below_succ2: "(x::uint32) \<le> 4294967293 \<Longrightarrow> y < x + 2 \<Longrightarrow> y \<le> x + 1"
  by (simp add: word_less_nat_alt word_le_nat_alt unat_succ1 unat_succ2)

lemma below_succ1: "(x::uint32) \<le> 4294967293 \<Longrightarrow> y < x + 1 \<Longrightarrow> y \<le> x"
  by (simp add: word_less_nat_alt word_le_nat_alt unat_succ1)

lemma unat_two_below: "(m::uint32) < c \<Longrightarrow> m = c - 2 \<Longrightarrow> unat m + 2 = unat c"
  by unat_arith

lemma push_point_wide:
  assumes "\<forall>r\<in>set st. single_or_wide r" "\<forall>r\<in>set st. min_c r \<le> max_c r"
    "\<forall>r\<in>set st. max_c r < c"
  shows "\<forall>r\<in>set (push_point st c). single_or_wide r"
proof (cases "(st, c)" rule: push_point.cases)
  case (1 l p rest c')
  then have st: "st = l # p # rest" and c': "c' = c" by simp_all
  have w: "single_or_wide l" "single_or_wide p" "\<forall>r\<in>set rest. single_or_wide r"
    using assms(1) by (simp_all add: st)
  have lp: "min_c l \<le> max_c l" "min_c p \<le> max_c p" "max_c l < c" "max_c p < c"
    using assms(2,3) by (simp_all add: st)
  show ?thesis
  proof (cases "max_c p = c - 2")
    case True
    have pp: "push_point st c = p\<lparr>max_c := c\<rparr> # rest"
      using True by (simp add: st)
    have "unat (max_c p) + 2 = unat c" using lp(4) True by (rule unat_two_below)
    moreover have "unat (min_c p) \<le> unat (max_c p)" using lp(2) by (simp add: word_le_nat_alt)
    ultimately have "single_or_wide (p\<lparr>max_c := c\<rparr>)" by (simp add: single_or_wide_def)
    with w(3) show ?thesis by (simp add: pp)
  next
    case False
    note nomerge = False
    show ?thesis
    proof (cases "min_c l < max_c l \<and> max_c l = c - 1")
      case True
      have pp: "push_point st c = l\<lparr>max_c := c\<rparr> # p # rest"
        using True nomerge by (auto simp: st)
      from True have "min_c l \<noteq> max_c l" by auto
      with w(1) have "unat (min_c l) + 2 \<le> unat (max_c l)" by (simp add: single_or_wide_def)
      moreover have "unat (max_c l) < unat c" using lp(3) by (simp add: word_less_nat_alt)
      ultimately have "single_or_wide (l\<lparr>max_c := c\<rparr>)" by (simp add: single_or_wide_def)
      with w show ?thesis by (simp add: pp)
    next
      case False
      then have pp: "push_point st c = CharacterRange_char c # l # p # rest"
        using nomerge by (simp add: st)
      have "single_or_wide (CharacterRange_char c)"
        by (simp add: single_or_wide_def CharacterRange_char_def)
      with w show ?thesis by (simp add: pp)
    qed
  qed
next
  case (2 l c')
  then have st: "st = [l]" and c': "c' = c" by simp_all
  have w: "single_or_wide l" using assms(1) by (simp add: st)
  have lp: "min_c l \<le> max_c l" "max_c l < c" using assms(2,3) by (simp_all add: st)
  show ?thesis
  proof (cases "min_c l < max_c l \<and> max_c l = c - 1")
    case True
    have pp: "push_point st c = [l\<lparr>max_c := c\<rparr>]" using True by (auto simp: st)
    from True have "min_c l \<noteq> max_c l" by auto
    with w have "unat (min_c l) + 2 \<le> unat (max_c l)" by (simp add: single_or_wide_def)
    moreover have "unat (max_c l) < unat c" using lp(2) by (simp add: word_less_nat_alt)
    ultimately have "single_or_wide (l\<lparr>max_c := c\<rparr>)" by (simp add: single_or_wide_def)
    then show ?thesis by (simp add: pp)
  next
    case False
    then have pp: "push_point st c = [CharacterRange_char c, l]" by (simp add: st)
    have "single_or_wide (CharacterRange_char c)"
      by (simp add: single_or_wide_def CharacterRange_char_def)
    with w show ?thesis by (simp add: pp)
  qed
next
  case (3 c')
  then show ?thesis by (simp add: single_or_wide_def CharacterRange_char_def)
qed

lemma push_point_grows:
  assumes "\<forall>r\<in>set st. min_c r \<le> max_c r" "\<forall>r\<in>set st. max_c r < c"
    "sorted_wrt (\<lambda>s r. max_c r < min_c s) st" "r \<in> set st"
  shows "\<exists>r'\<in>set (push_point st c). min_c r' \<le> min_c r \<and> max_c r \<le> max_c r'"
proof (cases "(st, c)" rule: push_point.cases)
  case (1 l p rest c')
  then have st: "st = l # p # rest" and c': "c' = c" by simp_all
  have lp: "min_c l \<le> max_c l" "min_c p \<le> max_c p" "max_c l < c" "max_c p < c"
    "max_c p < min_c l"
    using assms(1-3) by (simp_all add: st)
  from assms(4) have r: "r = l \<or> r = p \<or> r \<in> set rest" by (auto simp: st)
  show ?thesis
  proof (cases "max_c p = c - 2")
    case True
    have pp: "push_point st c = p\<lparr>max_c := c\<rparr> # rest"
      using True by (simp add: st)
    have a: "min_c p \<le> min_c l" using lp(2) lp(5) by order
    have b: "max_c l \<le> c" "max_c p \<le> c" using lp(3) lp(4) by order+
    from r show ?thesis
    proof (elim disjE)
      assume "r = l"
      with a b show ?thesis by (simp add: pp)
    next
      assume "r = p"
      with b show ?thesis by (simp add: pp)
    next
      assume "r \<in> set rest"
      then show ?thesis unfolding pp by (intro bexI [of _ r]) simp_all
    qed
  next
    case False
    note nomerge = False
    show ?thesis
    proof (cases "min_c l < max_c l \<and> max_c l = c - 1")
      case True
      have pp: "push_point st c = l\<lparr>max_c := c\<rparr> # p # rest"
        using True nomerge by (auto simp: st)
      have b: "max_c l \<le> c" using lp(3) by order
      from r show ?thesis
      proof (elim disjE)
        assume "r = l"
        with b show ?thesis by (simp add: pp)
      next
        assume "r = p"
        then show ?thesis by (simp add: pp)
      next
        assume "r \<in> set rest"
        then show ?thesis unfolding pp by (intro bexI [of _ r]) simp_all
      qed
    next
      case False
      then have pp: "push_point st c = CharacterRange_char c # st"
        using nomerge by (simp add: st)
      show ?thesis unfolding pp using assms(4) by (intro bexI [of _ r]) simp_all
    qed
  qed
next
  case (2 l c')
  then have st: "st = [l]" and c': "c' = c" by simp_all
  have lp: "max_c l < c" using assms(2) by (simp add: st)
  from assms(4) have r: "r = l" by (simp add: st)
  show ?thesis
  proof (cases "min_c l < max_c l \<and> max_c l = c - 1")
    case True
    have pp: "push_point st c = [l\<lparr>max_c := c\<rparr>]" using True by (auto simp: st)
    have b: "max_c l \<le> c" using lp by order
    with r show ?thesis by (simp add: pp)
  next
    case False
    then have pp: "push_point st c = [CharacterRange_char c, l]" by (simp add: st)
    from r show ?thesis by (simp add: pp)
  qed
next
  case (3 c')
  with assms(4) show ?thesis by simp
qed


lemma points_iff: "y \<in> points st \<longleftrightarrow> (\<exists>r\<in>set st. min_c r \<le> y \<and> y \<le> max_c r)"
  by (simp add: points_def)

lemma points_below_top:
  assumes "sorted_wrt (\<lambda>s r. max_c r < min_c s) (l # rest)" "y \<in> points rest"
  shows "y < min_c l"
proof -
  from assms(2) obtain r where r: "r \<in> set rest" "y \<le> max_c r"
    unfolding points_iff by blast
  from assms(1) r(1) have "max_c r < min_c l" by simp
  with r(2) show ?thesis by order
qed

lemma push_point_new_triple:
  assumes "\<forall>r\<in>set st. min_c r \<le> max_c r" "\<forall>r\<in>set st. max_c r < x + 2"
    "sorted_wrt (\<lambda>s r. max_c r < min_c s) st"
    "x \<le> 4294967293" "x \<in> points st" "x + 1 \<in> points st"
  shows "\<exists>r\<in>set (push_point st (x + 2)). min_c r \<le> x \<and> x + 2 \<le> max_c r"
proof (cases "(st, x + 2)" rule: push_point.cases)
  case (1 l p rest c')
  then have st: "st = l # p # rest" and c': "c' = x + 2" by simp_all
  have lp: "min_c l \<le> max_c l" "min_c p \<le> max_c p" "max_c l < x + 2" "max_c p < x + 2"
    "max_c p < min_c l"
    using assms(1-3) by (simp_all add: st)
  have c1: "x + 2 - 1 = x + 1" and c2: "x + 2 - 2 = x" by simp_all
  have top: "max_c l \<le> x + 1" using assms(4) lp(3) by (rule below_succ2)
  have "min_c l \<le> x + 1 \<and> x + 1 \<le> max_c l"
  proof (rule ccontr)
    assume "\<not> ?thesis"
    with assms(6) have "x + 1 \<in> points (p # rest)" by (auto simp: st)
    with assms(3) have "x + 1 < min_c l" unfolding st by (rule points_below_top)
    with lp(1) top show False by order
  qed
  then have in_l: "min_c l \<le> x + 1" "x + 1 \<le> max_c l" by simp_all
  with top have maxl: "max_c l = x + 1" by order
  show ?thesis
  proof (cases "max_c p = x")
    case True
    then have pp: "push_point st (x + 2) = p\<lparr>max_c := x + 2\<rparr> # rest"
      by (simp add: st)
    from lp(2) True show ?thesis by (simp add: pp)
  next
    case False
    have x_in_l: "min_c l \<le> x"
    proof (rule ccontr)
      assume n: "\<not> ?thesis"
      with assms(5) have "x \<in> points (p # rest)" by (auto simp: st)
      then have "(min_c p \<le> x \<and> x \<le> max_c p) \<or> x \<in> points rest" by auto
      then show False
      proof
        assume "min_c p \<le> x \<and> x \<le> max_c p"
        then have a: "x \<le> max_c p" by simp
        from lp(5) in_l have "max_c p < x + 1" by order
        with assms(4) have "max_c p \<le> x" by (rule below_succ1)
        with a False show False by order
      next
        assume "x \<in> points rest"
        moreover have "sorted_wrt (\<lambda>s r. max_c r < min_c s) (p # rest)"
          using assms(3) by (simp add: st)
        ultimately have "x < min_c p" by (rule points_below_top [rotated])
        moreover from lp(5) in_l have "max_c p < x + 1" by order
        with assms(4) have "max_c p \<le> x" by (rule below_succ1)
        ultimately show False using lp(2) by order
      qed
    qed
    have "x < x + 1" using assms(4) by (rule succ_less1)
    with x_in_l maxl have ext: "min_c l < max_c l" by order
    have pp: "push_point st (x + 2) = l\<lparr>max_c := x + 2\<rparr> # p # rest"
      using False ext maxl by (simp add: st)
    from x_in_l show ?thesis by (simp add: pp)
  qed
next
  case (2 l c')
  then have st: "st = [l]" and c': "c' = x + 2" by simp_all
  have lp: "min_c l \<le> x" "x + 1 \<le> max_c l" "max_c l < x + 2"
    using assms(2,5,6) by (simp_all add: st)
  have "max_c l \<le> x + 1" using assms(4) lp(3) by (rule below_succ2)
  with lp(2) have maxl: "max_c l = x + 1" by order
  have "x < x + 1" using assms(4) by (rule succ_less1)
  with lp(1) maxl have ext: "min_c l < max_c l" by order
  have pp: "push_point st (x + 2) = [l\<lparr>max_c := x + 2\<rparr>]"
    using ext maxl by (simp add: st)
  from lp(1) show ?thesis by (simp add: pp)
next
  case (3 c')
  with assms(5) show ?thesis by simp
qed

lemma push_point_triples:
  assumes "\<forall>r\<in>set st. min_c r \<le> max_c r" "\<forall>x\<in>points st. x < c"
    "sorted_wrt (\<lambda>s r. max_c r < min_c s) st"
    "triples_together (points st) st"
  shows "triples_together (insert c (points st)) (push_point st c)"
  unfolding triples_together_def
proof (intro ballI impI)
  fix x
  assume x: "x \<in> insert c (points st)" and b: "x \<le> 4294967293"
    and x1: "x + 1 \<in> insert c (points st)" and x2: "x + 2 \<in> insert c (points st)"
  have mx: "\<forall>r\<in>set st. max_c r < c"
    using assms(1,2) points_member by blast
  have o1: "x < x + 1" using b by (rule succ_less1)
  have o2: "x + 1 < x + 2" using b by (rule succ_less2)
  show "\<exists>r\<in>set (push_point st c). min_c r \<le> x \<and> x + 2 \<le> max_c r"
  proof (cases "x + 2 = c")
    case True
    have "x \<noteq> c" "x + 1 \<noteq> c" using o1 o2 True by auto
    with x x1 have "x \<in> points st" "x + 1 \<in> points st" by simp_all
    with assms(1) mx assms(3) b show ?thesis
      unfolding True [symmetric] by (intro push_point_new_triple) simp_all
  next
    case False
    with x2 have p2: "x + 2 \<in> points st" by simp
    with assms(2) have "x + 2 < c" by blast
    with o1 o2 have "x \<noteq> c" "x + 1 \<noteq> c" by auto
    with x x1 have "x \<in> points st" "x + 1 \<in> points st" by simp_all
    with assms(4) b p2 obtain r where r: "r \<in> set st" "min_c r \<le> x" "x + 2 \<le> max_c r"
      unfolding triples_together_def by blast
    from push_point_grows [OF assms(1) mx assms(3) r(1)]
    obtain r' where "r' \<in> set (push_point st c)" "min_c r' \<le> min_c r" "max_c r \<le> max_c r'"
      by blast
    with r(2,3) show ?thesis by (intro bexI [of _ r']) (auto intro: order.trans)
  qed
qed

lemma push_point_inv:
  assumes "stack_inv P st" "\<forall>x\<in>P. x < c"
  shows "stack_inv (insert c P) (push_point st c)"
proof -
  from assms(1) have cl: "\<forall>r\<in>set st. min_c r \<le> max_c r"
    and so: "sorted_wrt (\<lambda>s r. max_c r < min_c s) st"
    and pt: "points st = P" and ad: "adj_inv st"
    and wd: "\<forall>r\<in>set st. single_or_wide r" and tr: "triples_together P st"
    by (simp_all add: stack_inv_def)
  have mem: "min_c r \<in> P \<and> max_c r \<in> P" if "r \<in> set st" for r
    using points_member [OF that] cl that pt by blast
  have mx: "\<forall>r\<in>set st. max_c r < c" using mem assms(2) by blast
  have mn: "\<forall>r\<in>set st. min_c r < c" using mem assms(2) by blast
  have below: "\<forall>x\<in>points st. x < c" using assms(2) pt by simp
  have tr': "triples_together (points st) st" using tr pt by simp
  have pts: "points (push_point st c) = insert c P"
    using push_point_points [OF cl mx so] pt by simp
  have "triples_together (insert c P) (push_point st c)"
    using push_point_triples [OF cl below so tr'] pt by simp
  with pts push_point_closed [OF cl mn] push_point_sorted [OF so mx]
    push_point_adj [OF ad cl mx so] push_point_wide [OF wd cl mx]
  show ?thesis unfolding stack_inv_def by blast
qed

lemma foldl_push_point_inv:
  "stack_inv P st \<Longrightarrow> sorted_wrt (<) cs \<Longrightarrow> \<forall>x\<in>P. \<forall>y\<in>set cs. x < y \<Longrightarrow>
   stack_inv (P \<union> set cs) (foldl push_point st cs)"
proof (induction cs arbitrary: P st)
  case Nil
  then show ?case by simp
next
  case (Cons c cs)
  have below: "\<forall>x\<in>P. x < c" using Cons.prems(3) by simp
  have step: "stack_inv (insert c P) (push_point st c)"
    using Cons.prems(1) below by (rule push_point_inv)
  have so: "sorted_wrt (<) cs" and gt: "\<forall>y\<in>set cs. c < y"
    using Cons.prems(2) by simp_all
  have "\<forall>x\<in>insert c P. \<forall>y\<in>set cs. x < y" using gt Cons.prems(3) by simp
  from Cons.IH [OF step so this]
  have "stack_inv (insert c P \<union> set cs) (foldl push_point (push_point st c) cs)" .
  then show ?case by simp
qed

lemma consolidate_ranges_inv: "stack_inv S (rev (consolidate_ranges S))"
proof -
  have e: "stack_inv {} []" by (simp add: stack_inv_def triples_together_def)
  have "stack_inv ({} \<union> set (sorted_list_of_set S)) (foldl push_point [] (sorted_list_of_set S))"
    using e by (rule foldl_push_point_inv) simp_all
  then show ?thesis
    by (simp add: consolidate_ranges_def rev_foldl_consolidate_step)
qed

lemma adj_inv_successively:
  "adj_inv st \<Longrightarrow>
   successively (\<lambda>l p. max_c p + 1 = min_c l \<longrightarrow> min_c p = max_c p \<and> min_c l = max_c l) st"
  by (induction st rule: adj_inv.induct) simp_all

lemma consolidate_ranges_view: "range_view (consolidate_ranges S) S"
proof -
  let ?rs = "consolidate_ranges S"
  from consolidate_ranges_inv [of S]
  have cl: "\<forall>r\<in>set (rev ?rs). min_c r \<le> max_c r"
    and so: "sorted_wrt (\<lambda>s r. max_c r < min_c s) (rev ?rs)"
    and pt: "points (rev ?rs) = S" and ad: "adj_inv (rev ?rs)"
    and wd: "\<forall>r\<in>set (rev ?rs). single_or_wide r"
    and tr: "triples_together S (rev ?rs)"
    by (simp_all add: stack_inv_def)
  have 1: "\<forall>r\<in>set ?rs. min_c r \<le> max_c r" using cl by simp
  have 2: "sorted_wrt (\<lambda>r s. max_c r < min_c s) ?rs"
    using so by (simp add: sorted_wrt_rev)
  have 3: "(\<Union>r\<in>set ?rs. {min_c r..max_c r}) = S"
    using pt by (simp add: points_def)
  have 4: "successively (\<lambda>r s. max_c r + 1 = min_c s \<longrightarrow> min_c r = max_c r \<and> min_c s = max_c s) ?rs"
    using adj_inv_successively [OF ad] by simp
  have 5: "\<forall>r\<in>set ?rs. single_or_wide r" using wd by simp
  have 6: "triples_together S ?rs" using tr by (simp add: triples_together_def)
  from 1 2 3 4 5 6 show ?thesis unfolding range_view_def by blast
qed

text \<open>A range view is unique: two lists that are range views of one set are equal.\<close>

lemma sorted_wrt_related:
  "sorted_wrt R xs \<Longrightarrow> x \<in> set xs \<Longrightarrow> y \<in> set xs \<Longrightarrow> x = y \<or> R x y \<or> R y x"
  by (induction xs) auto

lemma nview_owner:
  assumes "nview ps C" "p \<in> set ps" "q \<in> set ps"
    "fst p \<le> n" "n \<le> snd p" "fst q \<le> n" "n \<le> snd q"
  shows "p = q"
proof -
  from assms(1) have "sorted_wrt (\<lambda>p q. snd p < fst q) ps" by (simp add: nview_def)
  from sorted_wrt_related [OF this assms(2,3)]
  have "p = q \<or> snd p < fst q \<or> snd q < fst p" .
  with assms(4-7) show ?thesis by linarith
qed

lemma nview_cover: "nview ps C \<Longrightarrow> p \<in> set ps \<Longrightarrow> fst p \<le> n \<Longrightarrow> n \<le> snd p \<Longrightarrow> C n"
  unfolding nview_def by blast

lemma nview_triple:
  "nview ps C \<Longrightarrow> C n \<Longrightarrow> C (n + 1) \<Longrightarrow> C (n + 2) \<Longrightarrow> \<exists>p\<in>set ps. fst p \<le> n \<and> n + 2 \<le> snd p"
  unfolding nview_def by blast

lemma nview_triple_in:
  assumes "nview ps C" "nview qs C" "q \<in> set qs" "fst q \<le> n" "n + 2 \<le> snd q"
  shows "\<exists>p\<in>set ps. fst p \<le> n \<and> n + 2 \<le> snd p"
proof -
  have "C n" "C (n + 1)" "C (n + 2)"
    using assms(3-5) by (auto intro!: nview_cover [OF assms(2) assms(3)])
  with assms(1) show ?thesis by (intro nview_triple)
qed


lemma nview_closed: "nview ps C \<Longrightarrow> p \<in> set ps \<Longrightarrow> fst p \<le> snd p"
  unfolding nview_def by blast

lemma nview_wide: "nview ps C \<Longrightarrow> p \<in> set ps \<Longrightarrow> fst p = snd p \<or> fst p + 2 \<le> snd p"
  unfolding nview_def by blast

lemma nview_owner_ex: "nview ps C \<Longrightarrow> C n \<Longrightarrow> \<exists>p\<in>set ps. fst p \<le> n \<and> n \<le> snd p"
  unfolding nview_def by blast

lemma nview_single_subset:
  assumes ps: "nview ps C" and qs: "nview qs C" and p: "p \<in> set ps" and s: "fst p = snd p"
  shows "p \<in> set qs"
proof -
  let ?a = "fst p"
  have "C ?a" using ps p by (rule nview_cover) (simp_all add: s)
  with qs obtain q where q: "q \<in> set qs" "fst q \<le> ?a" "?a \<le> snd q"
    using nview_owner_ex by blast
  from nview_wide [OF qs q(1)] show ?thesis
  proof
    assume "fst q = snd q"
    with q(2,3) s have "q = p" by (intro prod_eqI) simp_all
    with q(1) show ?thesis by simp
  next
    assume w: "fst q + 2 \<le> snd q"
    define n where "n = (if ?a + 2 \<le> snd q then ?a else snd q - 2)"
    have n: "fst q \<le> n" "n + 2 \<le> snd q" "n \<le> ?a" "?a \<le> n + 2"
      using w q(2,3) by (auto simp: n_def)
    from nview_triple_in [OF ps qs q(1) n(1,2)]
    obtain p' where p': "p' \<in> set ps" "fst p' \<le> n" "n + 2 \<le> snd p'" by blast
    have "p' = p" using ps p'(1) p
    proof (rule nview_owner)
      show "fst p' \<le> ?a" using p'(2) n(3) by simp
      show "?a \<le> snd p'" using p'(3) n(4) by simp
      show "fst p \<le> ?a" by simp
      show "?a \<le> snd p" by (simp add: s)
    qed
    with p'(2,3) s n(3,4) have False by simp
    then show ?thesis ..
  qed
qed

lemma nview_wide_subset:
  assumes ps: "nview ps C" and qs: "nview qs C" and p: "p \<in> set ps" and w: "fst p + 2 \<le> snd p"
  shows "p \<in> set qs"
proof -
  let ?a = "fst p" and ?b = "snd p"
  have "?a \<le> ?a" by simp
  from nview_triple_in [OF qs ps p this w]
  obtain q where q: "q \<in> set qs" "fst q \<le> ?a" "?a + 2 \<le> snd q" by blast
  have lo: "fst q = ?a"
  proof (rule ccontr)
    assume "fst q \<noteq> ?a"
    with q(2) have l: "fst q < ?a" by simp
    then have "fst q \<le> ?a - 1" "?a - 1 + 2 \<le> snd q" using q(3) by simp_all
    from nview_triple_in [OF ps qs q(1) this]
    obtain p' where p': "p' \<in> set ps" "fst p' \<le> ?a - 1" "?a - 1 + 2 \<le> snd p'" by blast
    have "p' = p" using ps p'(1) p
    proof (rule nview_owner)
      show "fst p' \<le> ?a" using p'(2) by simp
      show "?a \<le> snd p'" using p'(3) by simp
      show "fst p \<le> ?a" by simp
      show "?a \<le> snd p" using w by simp
    qed
    with p'(2) l show False by simp
  qed
  have hi1: "snd q \<le> ?b"
  proof (rule ccontr)
    assume "\<not> snd q \<le> ?b"
    then have "fst q \<le> ?b - 1" "?b - 1 + 2 \<le> snd q" using w lo by simp_all
    from nview_triple_in [OF ps qs q(1) this]
    obtain p' where p': "p' \<in> set ps" "fst p' \<le> ?b - 1" "?b - 1 + 2 \<le> snd p'" by blast
    have "p' = p" using ps p'(1) p
    proof (rule nview_owner)
      show "fst p' \<le> ?b" using p'(2) by simp
      show "?b \<le> snd p'" using p'(3) by simp
      show "fst p \<le> ?b" using w by simp
      show "?b \<le> snd p" by simp
    qed
    with p'(3) w show False by simp
  qed
  have hi2: "?b \<le> snd q"
  proof (rule ccontr)
    assume "\<not> ?b \<le> snd q"
    then have "?a \<le> snd q - 1" "snd q - 1 + 2 \<le> ?b" using q(3) by simp_all
    from nview_triple_in [OF qs ps p this]
    obtain q' where q': "q' \<in> set qs" "fst q' \<le> snd q - 1" "snd q - 1 + 2 \<le> snd q'" by blast
    have "q' = q" using qs q'(1) q(1)
    proof (rule nview_owner)
      show "fst q' \<le> snd q" using q'(2) by simp
      show "snd q \<le> snd q'" using q'(3) by simp
      show "fst q \<le> snd q" using q(2,3) by simp
      show "snd q \<le> snd q" by simp
    qed
    with q'(3) q(3) show False by simp
  qed
  from lo hi1 hi2 have "q = p" by (intro prod_eqI) simp_all
  with q(1) show ?thesis by simp
qed

lemma nview_subset:
  assumes "nview ps C" "nview qs C"
  shows "set ps \<subseteq> set qs"
proof
  fix p assume p: "p \<in> set ps"
  from nview_wide [OF assms(1) p] show "p \<in> set qs"
    using nview_single_subset [OF assms p] nview_wide_subset [OF assms p] by blast
qed

lemma nview_unique:
  assumes "nview ps C" "nview qs C"
  shows "ps = qs"
proof -
  have s: "set ps = set qs" using nview_subset [OF assms] nview_subset [OF assms(2,1)] by blast
  have k: "sorted_wrt (<) (map fst xs)" if "nview xs C" for xs
  proof -
    from that have so: "sorted_wrt (\<lambda>p q. snd p < fst q) xs"
      and c: "\<forall>p\<in>set xs. fst p \<le> snd p"
      by (simp_all add: nview_def)
    have "sorted_wrt (\<lambda>p q. fst p < fst q) xs"
    proof (rule sorted_wrt_mono_rel)
      show "sorted_wrt (\<lambda>p q. snd p < fst q) xs" by (rule so)
      fix x y assume "x \<in> set xs" "y \<in> set xs" "snd x < fst y"
      with c show "fst x < fst y" by force
    qed
    then show ?thesis by (simp add: sorted_wrt_map)
  qed
  have "map fst qs = map fst ps"
    using k [OF assms(1)] k [OF assms(2)] by (rule strict_sorted_equal) (simp add: s)
  moreover have "inj_on fst (set ps \<union> set qs)"
  proof (rule inj_onI)
    fix p q assume "p \<in> set ps \<union> set qs" "q \<in> set ps \<union> set qs" "fst p = fst q"
    then have pq: "p \<in> set ps" "q \<in> set ps" using s by simp_all
    show "p = q" using assms(1) pq
    proof (rule nview_owner)
      show "fst p \<le> fst p" by simp
      show "fst p \<le> snd p" using assms(1) pq(1) by (rule nview_closed)
      show "fst q \<le> fst p" using \<open>fst p = fst q\<close> by simp
      show "fst p \<le> snd q" using nview_closed [OF assms(1) pq(2)] \<open>fst p = fst q\<close> by simp
    qed
  qed
  ultimately show ?thesis using inj_on_map_eq_map [of fst ps qs] by simp
qed

lemma inj_nat_range: "inj nat_range"
proof (rule injI)
  fix r r' assume "nat_range r = nat_range r'"
  then have "min_c r = min_c r'" "max_c r = max_c r'"
    by (simp_all add: nat_range_def word_unat_eq_iff)
  then show "r = r'" by simp
qed

lemma unat_lt_2p32: "unat (w::uint32) < 2 ^ 32"
  by (rule order_less_le_trans [OF unsigned_less]) simp

lemma word_of_unat_below:
  assumes "n \<le> unat (w::uint32)"
  obtains y :: uint32 where "unat y = n"
proof -
  have "unat w < 2 ^ 32" by (rule unat_lt_2p32)
  with assms have "n < 2 ^ 32" by simp
  then have "unat (of_nat n :: uint32) = n" by (simp add: unat_of_nat)
  then show ?thesis by (rule that)
qed

lemma range_view_nview:
  assumes "range_view rs S"
  shows "nview (map nat_range rs) (\<lambda>n. \<exists>y\<in>S. unat y = n)"
proof -
  from assms have cl: "\<forall>r\<in>set rs. min_c r \<le> max_c r"
    and so: "sorted_wrt (\<lambda>r s. max_c r < min_c s) rs"
    and un: "(\<Union>r\<in>set rs. {min_c r..max_c r}) = S"
    and wd: "\<forall>r\<in>set rs. single_or_wide r"
    and tr: "triples_together S rs"
    by (simp_all add: range_view_def)
  have mem: "y \<in> S \<longleftrightarrow> (\<exists>r\<in>set rs. min_c r \<le> y \<and> y \<le> max_c r)" for y
    unfolding un [symmetric] by simp
  have 1: "\<forall>p\<in>set (map nat_range rs). fst p \<le> snd p"
    using cl by (simp add: nat_range_def word_le_nat_alt)
  have 2: "sorted_wrt (\<lambda>p q. snd p < fst q) (map nat_range rs)"
    using so by (simp add: sorted_wrt_map nat_range_def word_less_nat_alt)
  have 3: "(\<exists>y\<in>S. unat y = n) = (\<exists>p\<in>set (map nat_range rs). fst p \<le> n \<and> n \<le> snd p)" for n
  proof
    assume "\<exists>y\<in>S. unat y = n"
    then obtain y where "y \<in> S" "unat y = n" by blast
    with mem [of y] show "\<exists>p\<in>set (map nat_range rs). fst p \<le> n \<and> n \<le> snd p"
      by (auto simp: nat_range_def word_le_nat_alt)
  next
    assume "\<exists>p\<in>set (map nat_range rs). fst p \<le> n \<and> n \<le> snd p"
    then obtain r where r: "r \<in> set rs" "unat (min_c r) \<le> n" "n \<le> unat (max_c r)"
      by (auto simp: nat_range_def)
    from r(3) obtain y :: uint32 where y: "unat y = n" by (rule word_of_unat_below)
    with r have "min_c r \<le> y \<and> y \<le> max_c r" by (simp add: word_le_nat_alt)
    with r(1) have "y \<in> S" unfolding mem by blast
    with y show "\<exists>y\<in>S. unat y = n" by blast
  qed
  have 4: "\<forall>p\<in>set (map nat_range rs). fst p = snd p \<or> fst p + 2 \<le> snd p"
    using wd by (auto simp: nat_range_def single_or_wide_def)
  have 5: "\<exists>p\<in>set (map nat_range rs). fst p \<le> n \<and> n + 2 \<le> snd p"
    if "\<exists>y\<in>S. unat y = n" "\<exists>y\<in>S. unat y = n + 1" "\<exists>y\<in>S. unat y = n + 2" for n
  proof -
    from that obtain y0 y1 y2 where y: "y0 \<in> S" "unat y0 = n" "y1 \<in> S" "unat y1 = n + 1"
      "y2 \<in> S" "unat y2 = n + 2" by blast
    have "unat y2 < 2 ^ 32" by (rule unat_lt_2p32)
    with y(2,6) have b: "y0 \<le> 4294967293" by (simp add: word_le_nat_alt)
    have "y0 + 1 = y1" using y(2,4) unat_succ1 [OF b] by (simp add: word_unat_eq_iff)
    moreover have "y0 + 2 = y2" using y(2,6) unat_succ2 [OF b] by (simp add: word_unat_eq_iff)
    ultimately have "y0 + 1 \<in> S" "y0 + 2 \<in> S" using y(3,5) by simp_all
    with tr y(1) b obtain r where r: "r \<in> set rs" "min_c r \<le> y0" "y0 + 2 \<le> max_c r"
      unfolding triples_together_def by blast
    then have "unat (min_c r) \<le> n" "n + 2 \<le> unat (max_c r)"
      using y(2) unat_succ2 [OF b] by (simp_all add: word_le_nat_alt)
    with r(1) show ?thesis by (auto simp: nat_range_def intro!: bexI [of _ r])
  qed
  from 1 2 3 4 5 show ?thesis unfolding nview_def by blast
qed

lemma range_view_unique:
  assumes "range_view rs S" "range_view rs' S"
  shows "rs = rs'"
proof -
  have "map nat_range rs = map nat_range rs'"
    using range_view_nview [OF assms(1)] range_view_nview [OF assms(2)] by (rule nview_unique)
  then show ?thesis using inj_nat_range by (rule map_injective)
qed

text \<open>
  C3 (as amended): \<open>included_ranges\<close> on a set in direct form with the points
  \<open>{1, 2, 3, 7, 8, 10}\<close> returns exactly \<open>[[1,3], [7,7], [8,8], [10,10]]\<close>: the two
  consecutive points 7 and 8 stay two single-point ranges.
\<close>

theorem included_ranges_example:
  "included_ranges \<lparr>includes_all = False, included_chars = {1, 2, 3, 7, 8, 10}, excluded_chars = {}\<rparr>
   = [\<lparr>min_c = 1, max_c = 3\<rparr>, \<lparr>min_c = 7, max_c = 7\<rparr>, \<lparr>min_c = 8, max_c = 8\<rparr>,
      \<lparr>min_c = 10, max_c = 10\<rparr>]"
  by code_simp

text \<open>C3 as stated fails: the result is not \<open>[[1,3], [7,8], [10,10]]\<close>.\<close>

theorem included_ranges_example_counterexample:
  "included_ranges \<lparr>includes_all = False, included_chars = {1, 2, 3, 7, 8, 10}, excluded_chars = {}\<rparr>
   \<noteq> [\<lparr>min_c = 1, max_c = 3\<rparr>, \<lparr>min_c = 7, max_c = 8\<rparr>, \<lparr>min_c = 10, max_c = 10\<rparr>]"
  by code_simp

text \<open>
  C4 (as amended): for every stored point set, \<open>included_ranges\<close> and
  \<open>excluded_ranges\<close> return closed ranges in ascending order, no two overlapping, whose
  union is exactly the point set; any three consecutive stored points lie in one returned
  range (a run of three or more points is merged into one range); every returned range is
  a single point or spans at least three points (a run of exactly two points is not merged:
  it is returned as two single-point ranges); two consecutive returned ranges are adjacent
  only when both are single points; and the returned sequence is the only one with these
  properties.
\<close>

theorem ranges_view:
  "range_view (included_ranges A) (included_chars A) \<and>
   range_view (excluded_ranges A) (excluded_chars A) \<and>
   (\<forall>rs. range_view rs (included_chars A) \<longrightarrow> rs = included_ranges A) \<and>
   (\<forall>rs. range_view rs (excluded_chars A) \<longrightarrow> rs = excluded_ranges A)"
  using range_view_unique [OF _ consolidate_ranges_view]
  by (simp add: included_ranges_def excluded_ranges_def consolidate_ranges_view)

theorem ranges_view_witness:
  "range_view [\<lparr>min_c = 1, max_c = 3\<rparr>, \<lparr>min_c = 7, max_c = 7\<rparr>, \<lparr>min_c = 8, max_c = 8\<rparr>,
      \<lparr>min_c = 10, max_c = 10\<rparr>] {1, 2, 3, 7, 8, 10}"
proof -
  let ?A = "\<lparr>includes_all = False, included_chars = {1, 2, 3, 7, 8, 10}, excluded_chars = {}\<rparr>"
  have "included_ranges ?A = [\<lparr>min_c = 1, max_c = 3\<rparr>, \<lparr>min_c = 7, max_c = 7\<rparr>,
      \<lparr>min_c = 8, max_c = 8\<rparr>, \<lparr>min_c = 10, max_c = 10\<rparr>]"
    by code_simp
  with ranges_view [of ?A] show ?thesis by simp
qed

text \<open>
  C4 as stated fails: for the points \<open>{1, 2}\<close> the result is \<open>[[1,1], [2,2]]\<close>, two
  consecutive ranges that are adjacent.
\<close>

theorem ranges_view_counterexample:
  "included_ranges \<lparr>includes_all = False, included_chars = {1, 2}, excluded_chars = {}\<rparr>
     = [\<lparr>min_c = 1, max_c = 1\<rparr>, \<lparr>min_c = 2, max_c = 2\<rparr>] \<and>
   max_c \<lparr>min_c = 1, max_c = (1::uint32)\<rparr> + 1 = min_c \<lparr>min_c = 2, max_c = (2::uint32)\<rparr>"
  by code_simp

text \<open>
  The view leaves no room for the other candidates: neither one range for a run of two
  points, nor single-point ranges for a run of three.
\<close>

lemma range_view_not_pair: "\<not> range_view [\<lparr>min_c = 1, max_c = 2\<rparr>] {1, 2}"
  by (simp add: range_view_def single_or_wide_def)

lemma range_view_not_singles:
  "\<not> range_view [\<lparr>min_c = 1, max_c = 1\<rparr>, \<lparr>min_c = 2, max_c = 2\<rparr>, \<lparr>min_c = 3, max_c = 3\<rparr>]
      {1, 2, 3}"
proof
  let ?rs = "[\<lparr>min_c = 1, max_c = 1\<rparr>, \<lparr>min_c = 2, max_c = 2\<rparr>, \<lparr>min_c = 3, max_c = (3::uint32)\<rparr>]"
  assume "range_view ?rs {1, 2, 3}"
  then have "triples_together {1, 2, 3} ?rs" by (simp add: range_view_def)
  then have "(1::uint32) \<le> 4294967293 \<longrightarrow> (1::uint32) + 1 \<in> {1, 2, 3} \<longrightarrow>
      (1::uint32) + 2 \<in> {1, 2, 3} \<longrightarrow> (\<exists>r\<in>set ?rs. min_c r \<le> 1 \<and> 1 + 2 \<le> max_c r)"
    unfolding triples_together_def by blast
  then have "\<exists>r\<in>set ?rs. min_c r \<le> 1 \<and> 1 + 2 \<le> max_c r" by simp
  then show False by (simp add: word_le_nat_alt)
qed

section \<open>Round trip through the range view\<close>

lemma max_not_in_range: "mx \<noteq> 4294967295 \<Longrightarrow> (4294967295::uint32) \<notin> {mn..mx}"
proof
  assume "mx \<noteq> 4294967295" and "(4294967295::uint32) \<in> {mn..mx}"
  then have "4294967295 \<le> mx" by simp
  with word_le_max [of mx] have "mx = 4294967295" by (rule order.antisym)
  with \<open>mx \<noteq> 4294967295\<close> show False by contradiction
qed

lemma built_direct: "built s \<Longrightarrow> \<not> includes_all s \<and> 4294967295 \<notin> included_chars s"
proof (induction rule: built.induct)
  case init
  show ?case by (simp add: CharacterSet_init_def)
next
  case (include_range s mn mx s')
  then have d: "\<not> includes_all s" and n: "4294967295 \<notin> included_chars s" by simp_all
  from include_range.hyps(2) d
  have "mx \<noteq> 4294967295" and s': "s' = s\<lparr>included_chars := included_chars s \<union> {mn..mx}\<rparr>"
    by (auto simp: include_range_def add_range_eq split: if_splits)
  with d n max_not_in_range [of mx mn] show ?case by simp
next
  case (exclude_range s mn mx s')
  then have d: "\<not> includes_all s" and n: "4294967295 \<notin> included_chars s" by simp_all
  from exclude_range.hyps(2) d
  have s': "s' = s\<lparr>included_chars := included_chars s - {mn..mx}\<rparr>"
    by (auto simp: exclude_range_def remove_range_eq split: if_splits)
  with d n show ?case by simp
qed

lemma include_ranges_direct:
  "\<not> includes_all s \<Longrightarrow> \<forall>r\<in>set rs. max_c r \<noteq> 4294967295 \<Longrightarrow>
   include_ranges s rs =
     Some (s\<lparr>included_chars := included_chars s \<union> (\<Union>r\<in>set rs. {min_c r..max_c r})\<rparr>)"
proof (induction rs arbitrary: s)
  case Nil
  then show ?case by simp
next
  case (Cons r rs)
  let ?s' = "s\<lparr>included_chars := included_chars s \<union> {min_c r..max_c r}\<rparr>"
  have m: "max_c r \<noteq> 4294967295" and ms: "\<forall>r\<in>set rs. max_c r \<noteq> 4294967295"
    using Cons.prems(2) by simp_all
  have step: "include_range s (min_c r) (max_c r) = Some ?s'"
    using Cons.prems(1) m by (simp add: include_range_def add_range_eq)
  have d': "\<not> includes_all ?s'" using Cons.prems(1) by simp
  have "include_ranges s (r # rs) = include_ranges ?s' rs" by (simp add: step)
  also have "\<dots> = Some (?s'\<lparr>included_chars := included_chars ?s' \<union> (\<Union>r\<in>set rs. {min_c r..max_c r})\<rparr>)"
    using d' ms by (rule Cons.IH)
  also have "\<dots> = Some (s\<lparr>included_chars := included_chars s \<union> (\<Union>r\<in>set (r # rs). {min_c r..max_c r})\<rparr>)"
    by (simp add: Un_assoc)
  finally show ?case .
qed

text \<open>
  C9: for every set \<open>A\<close> built from a default-constructed set by \<open>include\<close> and
  \<open>exclude\<close> calls only, including each range of \<open>included_ranges\<close> into a
  default-constructed set returns, and the set it makes has exactly the members of \<open>A\<close>.
\<close>

theorem included_ranges_round_trip:
  assumes "built A"
  shows "\<exists>A'. include_ranges CharacterSet_init (included_ranges A) = Some A' \<and>
           (\<forall>p. contains A' p = contains A p)"
proof -
  let ?rs = "included_ranges A"
  from built_direct [OF assms]
  have d: "\<not> includes_all A" and n: "4294967295 \<notin> included_chars A" by simp_all
  have v: "range_view ?rs (included_chars A)"
    unfolding included_ranges_def by (rule consolidate_ranges_view)
  then have cl: "\<forall>r\<in>set ?rs. min_c r \<le> max_c r"
    and un: "(\<Union>r\<in>set ?rs. {min_c r..max_c r}) = included_chars A"
    by (simp_all add: range_view_def)
  have "max_c r \<noteq> 4294967295" if "r \<in> set ?rs" for r
  proof -
    from cl that have "max_c r \<in> {min_c r..max_c r}" by simp
    with that have "max_c r \<in> (\<Union>r\<in>set ?rs. {min_c r..max_c r})" by blast
    with un n show ?thesis by auto
  qed
  then have ms: "\<forall>r\<in>set ?rs. max_c r \<noteq> 4294967295" by blast
  have i: "\<not> includes_all CharacterSet_init" by (simp add: CharacterSet_init_def)
  from include_ranges_direct [OF i ms]
  have "include_ranges CharacterSet_init ?rs =
      Some (CharacterSet_init\<lparr>included_chars := included_chars A\<rparr>)"
    by (simp add: un CharacterSet_init_def)
  moreover have "contains (CharacterSet_init\<lparr>included_chars := included_chars A\<rparr>) p = contains A p" for p
    using d by (simp add: contains_def CharacterSet_init_def)
  ultimately show ?thesis by blast
qed

theorem included_ranges_round_trip_witness:
  "built \<lparr>includes_all = False, included_chars = {1, 3}, excluded_chars = {}\<rparr> \<and>
   (\<exists>A'. include_ranges CharacterSet_init
            (included_ranges \<lparr>includes_all = False, included_chars = {1, 3}, excluded_chars = {}\<rparr>) = Some A' \<and>
         (\<forall>p. contains A' p = contains \<lparr>includes_all = False, included_chars = {1, 3}, excluded_chars = {}\<rparr> p))"
proof -
  let ?B = "\<lparr>includes_all = False, included_chars = {1, 2, 3}, excluded_chars = {}\<rparr>"
  let ?A = "\<lparr>includes_all = False, included_chars = {1, 3}, excluded_chars = {}\<rparr>"
  have "include_range CharacterSet_init 1 3 = Some ?B" by code_simp
  then have b: "built ?B" by (rule built.include_range [OF built.init])
  have "exclude_range ?B 2 2 = Some ?A" by code_simp
  with b have a: "built ?A" by (rule built.exclude_range)
  from a included_ranges_round_trip [OF a] show ?thesis by (rule conjI)
qed

end
